theory Spec2Isabelle
  imports Main "HOL-Library.Word"
begin

unbundle bit_operations_syntax

section \<open>Data model\<close>

text \<open>
  Go strings are byte sequences, modelled as \<^typ>\<open>string\<close> (a list of 8-bit characters);
  a \<^verbatim>\<open>[]byte\<close> is a list of 8-bit words.  The conversion \<^verbatim>\<open>[]byte(s)\<close> keeps every byte.
\<close>

type_synonym byte = "8 word"

definition bytes_of_string :: "string \<Rightarrow> byte list" where
  "bytes_of_string s = map (\<lambda>c. of_nat (of_char c)) s"

text \<open>
  Every error value the two password functions can return.  The first group is created in
  \<^verbatim>\<open>internal/util/password.go\<close> itself; the constructors with an argument wrap the error
  of a library call (\<^verbatim>\<open>fmt.Errorf("...: %w", err)\<close>).  The second group stands for the
  errors of the Go libraries that are called.
\<close>

datatype error =
    ErrPasswordEmpty            \<comment> \<open>\<^verbatim>\<open>errors.New("password cannot be empty")\<close>\<close>
  | ErrGenerateSalt error       \<comment> \<open>\<^verbatim>\<open>"failed to generate salt: %w"\<close>\<close>
  | ErrPasswordOrHashEmpty      \<comment> \<open>\<^verbatim>\<open>errors.New("password and stored hash cannot be empty")\<close>\<close>
  | ErrInvalidHashFormat        \<comment> \<open>\<^verbatim>\<open>errors.New("invalid hash format")\<close>\<close>
  | ErrIncompatibleAlgorithm    \<comment> \<open>\<^verbatim>\<open>errors.New("incompatible algorithm")\<close>\<close>
  | ErrParseIterations error    \<comment> \<open>\<^verbatim>\<open>"failed to parse iterations: %w"\<close>\<close>
  | ErrDecodeSalt error         \<comment> \<open>\<^verbatim>\<open>"failed to decode salt: %w"\<close>\<close>
  | ErrDecodeHash error         \<comment> \<open>\<^verbatim>\<open>"failed to decode hash: %w"\<close>\<close>
  | RandomSourceError           \<comment> \<open>\<^verbatim>\<open>crypto/rand\<close>: the system source delivered no bytes\<close>
  | ScanEOF                     \<comment> \<open>\<^verbatim>\<open>fmt\<close>: input exhausted before a number was read\<close>
  | ScanExpectedInteger         \<comment> \<open>\<^verbatim>\<open>fmt\<close>: "expected integer"\<close>
  | NumErrSyntax                \<comment> \<open>\<^verbatim>\<open>strconv.ErrSyntax\<close>\<close>
  | NumErrRange                 \<comment> \<open>\<^verbatim>\<open>strconv.ErrRange\<close>\<close>
  | CorruptInputError nat       \<comment> \<open>\<^verbatim>\<open>base64.CorruptInputError(offset)\<close>\<close>

subsection \<open>Constants of \<^verbatim>\<open>password.go\<close>\<close>

definition passwordSaltBytes :: nat where
  "passwordSaltBytes = 16"

definition passwordHashBytes :: nat where
  "passwordHashBytes = 32"

definition passwordIterations :: int where
  "passwordIterations = 1000000"

definition passwordAlgorithmKey :: string where
  "passwordAlgorithmKey = ''pbkdf2-sha256''"

section \<open>Library functions used by the password code\<close>

subsection \<open>\<^verbatim>\<open>strings.Split\<close> with a one-byte separator\<close>

text \<open>
  \<^verbatim>\<open>strings.Split(s, ":")\<close> cuts \<^verbatim>\<open>s\<close> at every separator; the result always has one more
  element than there are separators in \<^verbatim>\<open>s\<close> (the empty string gives one empty field).
\<close>

fun strings_Split :: "string \<Rightarrow> char \<Rightarrow> string list" where
  "strings_Split [] sep = [[]]"
| "strings_Split (c # cs) sep =
     (if c = sep then [] # strings_Split cs sep
      else (case strings_Split cs sep of
              [] \<Rightarrow> [[c]]
            | f # fs \<Rightarrow> (c # f) # fs))"

subsection \<open>\<^verbatim>\<open>encoding/base64\<close>: \<^verbatim>\<open>RawStdEncoding\<close>\<close>

definition encodeStd :: string where
  "encodeStd = ''ABCDEFGHIJKLMNOPQRSTUVWXYZabcdefghijklmnopqrstuvwxyz0123456789+/''"

text \<open>
  \<^verbatim>\<open>Encode\<close>: three source bytes are packed into a 24-bit value (\<^verbatim>\<open>a<<16 | b<<8 | c\<close>),
  which is cut into four 6-bit indices of the alphabet (\<^verbatim>\<open>val>>18&0x3F\<close>, ...).  The
  value never exceeds 24 bits, so the shifts are written as multiplications and divisions
  of naturals.  A rest of one or two bytes gives two or three characters; the raw encoding
  writes no padding.
\<close>

definition enc6 :: "nat \<Rightarrow> nat \<Rightarrow> char" where
  "enc6 val shift = encodeStd ! (val div 2 ^ shift mod 64)"

fun EncodeToString :: "byte list \<Rightarrow> string" where
  "EncodeToString (a # b # c # rest) =
     (let val = unat a * 2 ^ 16 + unat b * 2 ^ 8 + unat c
      in enc6 val 18 # enc6 val 12 # enc6 val 6 # enc6 val 0 # EncodeToString rest)"
| "EncodeToString [a, b] =
     (let val = unat a * 2 ^ 16 + unat b * 2 ^ 8
      in [enc6 val 18, enc6 val 12, enc6 val 6])"
| "EncodeToString [a] =
     (let val = unat a * 2 ^ 16
      in [enc6 val 18, enc6 val 12])"
| "EncodeToString [] = []"

text \<open>
  \<^verbatim>\<open>decodeMap\<close> sends a byte of the alphabet to its index and every other byte to the
  marker \<^verbatim>\<open>0xff\<close> (here \<^term>\<open>None\<close>).
\<close>

definition decodeMap :: "char \<Rightarrow> nat option" where
  "decodeMap c = map_of (zip encodeStd [0..<64]) c"

text \<open>
  The bytes of one quantum.  The buffer of four indices starts as zeros, so a short last
  quantum is filled up with zeros; \<^verbatim>\<open>val = d0<<18 | d1<<12 | d2<<6 | d3\<close>, and a quantum
  of \<^verbatim>\<open>dlen\<close> characters yields the first \<^verbatim>\<open>dlen - 1\<close> of the bytes \<^verbatim>\<open>val>>16\<close>,
  \<^verbatim>\<open>val>>8\<close>, \<^verbatim>\<open>val\<close>.  The encoding is not strict: unused low bits are dropped unchecked.
\<close>

definition quantum_bytes :: "nat list \<Rightarrow> byte list" where
  "quantum_bytes dbuf =
     (let d = dbuf @ replicate (4 - length dbuf) 0;
          val = d ! 0 * 2 ^ 18 + d ! 1 * 2 ^ 12 + d ! 2 * 2 ^ 6 + d ! 3
      in take (length dbuf - 1)
           [of_nat (val div 2 ^ 16), of_nat (val div 2 ^ 8), of_nat val])"

text \<open>
  \<^verbatim>\<open>Decode\<close> with \<^verbatim>\<open>decodeQuantum\<close>: \<^verbatim>\<open>si\<close> is the offset of the next input byte and
  \<^verbatim>\<open>dbuf\<close> holds the indices collected for the current quantum.  Carriage returns and
  newlines are skipped; any other byte outside the alphabet is reported with its offset
  (the raw encoding has no padding character); an input that ends one character into a
  quantum is reported at the last offset.
\<close>

fun decode_from :: "nat \<Rightarrow> nat list \<Rightarrow> string \<Rightarrow> error + byte list" where
  "decode_from si dbuf [] =
     (if dbuf = [] then Inr []
      else if length dbuf = 1 then Inl (CorruptInputError (si - 1))
      else Inr (quantum_bytes dbuf))"
| "decode_from si dbuf (c # cs) =
     (case decodeMap c of
        Some out \<Rightarrow>
          (if length dbuf = 3 then
             (case decode_from (si + 1) [] cs of
                Inl e \<Rightarrow> Inl e
              | Inr bs \<Rightarrow> Inr (quantum_bytes (dbuf @ [out]) @ bs))
           else decode_from (si + 1) (dbuf @ [out]) cs)
      | None \<Rightarrow>
          (if c = CHR 0x0A \<or> c = CHR 0x0D then decode_from (si + 1) dbuf cs
           else Inl (CorruptInputError si)))"

definition DecodeString :: "string \<Rightarrow> error + byte list" where
  "DecodeString s = decode_from 0 [] s"

subsection \<open>\<^verbatim>\<open>fmt.Sscan\<close> into an \<^verbatim>\<open>*int\<close>, and \<^verbatim>\<open>strconv.ParseInt\<close>\<close>

text \<open>
  The scanner reads runes.  All characters it looks for are ASCII, so the model works on
  bytes; only the white space skipped before the number has multi-byte members, which are
  recognised by their UTF-8 encodings.  \<^term>\<open>space_width\<close> is the number of bytes of the
  space rune the input starts with, and 0 when it starts with none.  \<^verbatim>\<open>Sscan\<close> treats
  newlines as space.
\<close>

definition space_width :: "string \<Rightarrow> nat" where
  "space_width s =
     (let b = map of_char s :: nat list in
      if b = [] then 0
      else if (9 \<le> hd b \<and> hd b \<le> 13) \<or> hd b = 32 then 1
      else if take 2 b = [0xC2, 0x85] \<or> take 2 b = [0xC2, 0xA0] then 2
      else if take 3 b = [0xE1, 0x9A, 0x80] then 3
      else if take 2 b = [0xE2, 0x80] \<and> 3 \<le> length b \<and>
              ((0x80 \<le> b ! 2 \<and> b ! 2 \<le> 0x8A) \<or> b ! 2 = 0xA8 \<or> b ! 2 = 0xA9 \<or> b ! 2 = 0xAF)
           then 3
      else if take 3 b = [0xE2, 0x81, 0x9F] then 3
      else if take 3 b = [0xE3, 0x80, 0x80] then 3
      else 0)"

function SkipSpace :: "string \<Rightarrow> string" where
  "SkipSpace s = (if space_width s = 0 then s else SkipSpace (drop (space_width s) s))"
  by pat_completeness auto
termination
  by (relation "measure length") (auto simp: space_width_def Let_def split: if_splits)

declare SkipSpace.simps [simp del]

text \<open>\<^verbatim>\<open>s.accept(ok)\<close>: when the next byte is one of \<^verbatim>\<open>ok\<close> it moves to the token buffer.\<close>

fun accept :: "string \<Rightarrow> string \<times> string \<Rightarrow> bool \<times> (string \<times> string)" where
  "accept ok (buf, []) = (False, (buf, []))"
| "accept ok (buf, c # cs) =
     (if c \<in> set ok then (True, (buf @ [c], cs)) else (False, (buf, c # cs)))"

definition binaryDigits :: string where "binaryDigits = ''01''"
definition octalDigits :: string where "octalDigits = ''01234567''"
definition decimalDigits :: string where "decimalDigits = ''0123456789''"
definition hexadecimalDigits :: string where "hexadecimalDigits = ''0123456789aAbBcCdDeEfF''"

text \<open>
  \<^verbatim>\<open>scanBasePrefix\<close>: a leading \<^verbatim>\<open>0\<close>, alone or with \<^verbatim>\<open>b\<close>, \<^verbatim>\<open>o\<close> or \<^verbatim>\<open>x\<close>, selects the
  digits that may follow and counts as a digit already seen.
\<close>

definition scanBasePrefix :: "string \<times> string \<Rightarrow> string \<times> bool \<times> (string \<times> string)" where
  "scanBasePrefix st =
     (case accept ''0'' st of
        (False, _) \<Rightarrow> (decimalDigits @ ''_'', False, st)
      | (True, st1) \<Rightarrow>
          (case accept ''bB'' st1 of
             (True, st2) \<Rightarrow> (binaryDigits @ ''_'', True, st2)
           | (False, _) \<Rightarrow>
          (case accept ''oO'' st1 of
             (True, st2) \<Rightarrow> (octalDigits @ ''_'', True, st2)
           | (False, _) \<Rightarrow>
          (case accept ''xX'' st1 of
             (True, st2) \<Rightarrow> (hexadecimalDigits @ ''_'', True, st2)
           | (False, _) \<Rightarrow> (octalDigits @ ''_'', True, st1)))))"

text \<open>\<^verbatim>\<open>scanNumber\<close> returns the token: the buffer and all following bytes of \<^verbatim>\<open>digits\<close>.\<close>

definition scanNumber :: "string \<Rightarrow> bool \<Rightarrow> string \<times> string \<Rightarrow> error + string" where
  "scanNumber digits haveDigits st =
     (if \<not> haveDigits \<and> snd st = [] then Inl ScanEOF
      else if \<not> haveDigits \<and> \<not> fst (accept digits st) then Inl ScanExpectedInteger
      else (case (if haveDigits then st else snd (accept digits st)) of
              (buf, inp) \<Rightarrow> Inr (buf @ takeWhile (\<lambda>c. c \<in> set digits) inp)))"

text \<open>\<^verbatim>\<open>lower(c) = c | ('x' - 'X')\<close>\<close>

definition lower :: "char \<Rightarrow> char" where
  "lower c = char_of ((of_char c :: nat) OR 32)"

definition digit_val :: "char \<Rightarrow> nat option" where
  "digit_val c =
     (if (48::nat) \<le> of_char c \<and> (of_char c :: nat) \<le> 57 then Some (of_char c - 48)
      else if (97::nat) \<le> of_char (lower c) \<and> (of_char (lower c) :: nat) \<le> 122
           then Some (of_char (lower c) - 97 + 10)
      else None)"

definition maxUint64 :: nat where
  "maxUint64 = 2 ^ 64 - 1"

text \<open>
  The digit loop of \<^verbatim>\<open>ParseUint\<close> for base argument 0 (underscores are skipped and checked
  afterwards).  \<^verbatim>\<open>n\<close> is a \<^verbatim>\<open>uint64\<close>: the loop stops with a range error before a
  multiplication or an addition would exceed it.
\<close>

fun parse_digits :: "nat \<Rightarrow> nat \<Rightarrow> string \<Rightarrow> error + nat" where
  "parse_digits base n [] = Inr n"
| "parse_digits base n (c # cs) =
     (if c = CHR ''_'' then parse_digits base n cs
      else (case digit_val c of
              None \<Rightarrow> Inl NumErrSyntax
            | Some d \<Rightarrow>
                if d \<ge> base then Inl NumErrSyntax
                else if n \<ge> maxUint64 div base + 1 then Inl NumErrRange
                else if n * base + d > maxUint64 then Inl NumErrRange
                else parse_digits base (n * base + d) cs))"

text \<open>\<^verbatim>\<open>underscoreOK\<close>: underscores only between digits, or between the base prefix and a digit.\<close>

fun underscore_loop :: "bool \<Rightarrow> char \<Rightarrow> string \<Rightarrow> bool" where
  "underscore_loop hex saw [] = (saw \<noteq> CHR ''_'')"
| "underscore_loop hex saw (c # cs) =
     (if ((48::nat) \<le> of_char c \<and> (of_char c :: nat) \<le> 57) \<or>
         (hex \<and> (97::nat) \<le> of_char (lower c) \<and> (of_char (lower c) :: nat) \<le> 102)
      then underscore_loop hex (CHR ''0'') cs
      else if c = CHR ''_'' then
        (if saw \<noteq> CHR ''0'' then False else underscore_loop hex (CHR ''_'') cs)
      else if saw = CHR ''_'' then False
      else underscore_loop hex (CHR ''!'') cs)"

definition underscoreOK :: "string \<Rightarrow> bool" where
  "underscoreOK s0 =
     (let s = (if length s0 \<ge> 1 \<and> (hd s0 = CHR ''-'' \<or> hd s0 = CHR ''+'') then tl s0 else s0)
      in if length s \<ge> 2 \<and> s ! 0 = CHR ''0'' \<and>
            (lower (s ! 1) = CHR ''b'' \<or> lower (s ! 1) = CHR ''o'' \<or> lower (s ! 1) = CHR ''x'')
         then underscore_loop (lower (s ! 1) = CHR ''x'') (CHR ''0'') (drop 2 s)
         else underscore_loop False (CHR ''^'') s)"

text \<open>\<^verbatim>\<open>strconv.ParseUint(s, 0, 64)\<close> and \<^verbatim>\<open>strconv.ParseInt(s, 0, 64)\<close>.\<close>

definition ParseUint :: "string \<Rightarrow> error + nat" where
  "ParseUint s0 =
     (if s0 = [] then Inl NumErrSyntax
      else
        (case (if hd s0 = CHR ''0'' then
                 (if length s0 \<ge> 3 \<and> lower (s0 ! 1) = CHR ''b'' then (2, drop 2 s0)
                  else if length s0 \<ge> 3 \<and> lower (s0 ! 1) = CHR ''o'' then (8, drop 2 s0)
                  else if length s0 \<ge> 3 \<and> lower (s0 ! 1) = CHR ''x'' then (16, drop 2 s0)
                  else (8, drop 1 s0))
               else (10, s0)) of
           (base, s) \<Rightarrow>
             (case parse_digits base 0 s of
                Inl e \<Rightarrow> Inl e
              | Inr n \<Rightarrow>
                  if CHR ''_'' \<in> set s \<and> \<not> underscoreOK s0 then Inl NumErrSyntax
                  else Inr n)))"

definition ParseInt :: "string \<Rightarrow> error + int" where
  "ParseInt s0 =
     (if s0 = [] then Inl NumErrSyntax
      else
        (let neg = (hd s0 = CHR ''-'');
             s = (if hd s0 = CHR ''+'' \<or> hd s0 = CHR ''-'' then tl s0 else s0)
         in case ParseUint s of
              Inl e \<Rightarrow> Inl e
            | Inr un \<Rightarrow>
                if \<not> neg \<and> un \<ge> 2 ^ 63 then Inl NumErrRange
                else if neg \<and> un > 2 ^ 63 then Inl NumErrRange
                else Inr (if neg then - int un else int un)))"

text \<open>
  \<^verbatim>\<open>scanInt\<close> for the verb \<^verbatim>\<open>v\<close> and a 64-bit \<^verbatim>\<open>int\<close>: skip space, fail at the end of
  the input, take an optional sign, the base prefix and the digits, and convert the
  token.  \<^verbatim>\<open>Sscan\<close> does not look at what follows the token.
\<close>

definition scanInt :: "string \<Rightarrow> error + int" where
  "scanInt str =
     (let inp = SkipSpace str in
      if inp = [] then Inl ScanEOF
      else
        (case scanBasePrefix (snd (accept ''+-'' ([], inp))) of
           (digits, haveDigits, st) \<Rightarrow>
             (case scanNumber digits haveDigits st of
                Inl e \<Rightarrow> Inl e
              | Inr tok \<Rightarrow> ParseInt tok)))"

subsection \<open>\<^verbatim>\<open>fmt.Sprintf\<close> with the verb \<^verbatim>\<open>%d\<close>\<close>

fun dec_digits :: "nat \<Rightarrow> string" where
  "dec_digits n =
     (if n < 10 then [char_of (48 + n)]
      else dec_digits (n div 10) @ [char_of (48 + n mod 10)])"

declare dec_digits.simps [simp del]

definition fmt_d :: "int \<Rightarrow> string" where
  "fmt_d i = (if i < 0 then CHR ''-'' # dec_digits (nat (- i)) else dec_digits (nat i))"

subsection \<open>\<^verbatim>\<open>crypto/sha256\<close>\<close>

text \<open>
  SHA-256 on 32-bit words (FIPS 180-4): the message is padded to whole 64-byte blocks,
  each block is expanded to a schedule of 64 words, and 64 rounds update a state of eight
  words, which is added to the chaining value.  The round constants are the first 32 bits
  of the fractional parts of the cube roots of the first 64 primes, and the initial state
  those of the square roots of the first 8 primes; they are written in decimal.
\<close>

type_synonym u32 = "32 word"

type_synonym sha_state = "u32 \<times> u32 \<times> u32 \<times> u32 \<times> u32 \<times> u32 \<times> u32 \<times> u32"

definition sha256_K :: "u32 list" where
  "sha256_K =
     [1116352408, 1899447441, 3049323471, 3921009573,
      961987163, 1508970993, 2453635748, 2870763221,
      3624381080, 310598401, 607225278, 1426881987,
      1925078388, 2162078206, 2614888103, 3248222580,
      3835390401, 4022224774, 264347078, 604807628,
      770255983, 1249150122, 1555081692, 1996064986,
      2554220882, 2821834349, 2952996808, 3210313671,
      3336571891, 3584528711, 113926993, 338241895,
      666307205, 773529912, 1294757372, 1396182291,
      1695183700, 1986661051, 2177026350, 2456956037,
      2730485921, 2820302411, 3259730800, 3345764771,
      3516065817, 3600352804, 4094571909, 275423344,
      430227734, 506948616, 659060556, 883997877,
      958139571, 1322822218, 1537002063, 1747873779,
      1955562222, 2024104815, 2227730452, 2361852424,
      2428436474, 2756734187, 3204031479, 3329325298]"

definition sha256_init :: sha_state where
  "sha256_init =
     (1779033703, 3144134277, 1013904242, 2773480762, 1359893119, 2600822924, 528734635, 1541459225)"

definition be32_bytes :: "u32 \<Rightarrow> byte list" where
  "be32_bytes w = [ucast (drop_bit 24 w), ucast (drop_bit 16 w), ucast (drop_bit 8 w), ucast w]"

definition be32_word :: "byte list \<Rightarrow> u32" where
  "be32_word bs = foldl (\<lambda>w b. push_bit 8 w OR ucast b) 0 bs"

definition be64_bytes :: "64 word \<Rightarrow> byte list" where
  "be64_bytes w = map (\<lambda>k. ucast (drop_bit (8 * (7 - k)) w)) [0..<8]"

definition sha256_pad :: "byte list \<Rightarrow> byte list" where
  "sha256_pad m =
     m @ [0x80] @ replicate ((119 - length m mod 64) mod 64) 0
       @ be64_bytes (of_nat (8 * length m))"

fun chunks :: "nat \<Rightarrow> 'a list \<Rightarrow> 'a list list" where
  "chunks n [] = []"
| "chunks n (x # xs) = take n (x # xs) # chunks n (drop (n - 1) xs)"

fun schedule :: "nat \<Rightarrow> u32 list \<Rightarrow> u32 list" where
  "schedule 0 w = w"
| "schedule (Suc k) w =
     (let t = length w;
          v1 = w ! (t - 2); v2 = w ! (t - 15);
          t1 = word_rotr 17 v1 XOR word_rotr 19 v1 XOR drop_bit 10 v1;
          t2 = word_rotr 7 v2 XOR word_rotr 18 v2 XOR drop_bit 3 v2
      in schedule k (w @ [t1 + w ! (t - 7) + t2 + w ! (t - 16)]))"

fun sha256_round :: "sha_state \<Rightarrow> u32 \<times> u32 \<Rightarrow> sha_state" where
  "sha256_round (a, b, c, d, e, f, g, h) (k, w) =
     (let t1 = h + (word_rotr 6 e XOR word_rotr 11 e XOR word_rotr 25 e)
                 + ((e AND f) XOR (NOT e AND g)) + k + w;
          t2 = (word_rotr 2 a XOR word_rotr 13 a XOR word_rotr 22 a)
                 + ((a AND b) XOR (a AND c) XOR (b AND c))
      in (t1 + t2, a, b, c, d + t1, e, f, g))"

fun sha256_add :: "sha_state \<Rightarrow> sha_state \<Rightarrow> sha_state" where
  "sha256_add (a, b, c, d, e, f, g, h) (a', b', c', d', e', f', g', h') =
     (a + a', b + b', c + c', d + d', e + e', f + f', g + g', h + h')"

definition sha256_block :: "sha_state \<Rightarrow> byte list \<Rightarrow> sha_state" where
  "sha256_block st blk =
     sha256_add st
       (foldl sha256_round st (zip sha256_K (schedule 48 (map be32_word (chunks 4 blk)))))"

fun sha256_digest :: "sha_state \<Rightarrow> byte list" where
  "sha256_digest (a, b, c, d, e, f, g, h) = concat (map be32_bytes [a, b, c, d, e, f, g, h])"

definition sha256_Sum :: "byte list \<Rightarrow> byte list" where
  "sha256_Sum m = sha256_digest (foldl sha256_block sha256_init (chunks 64 (sha256_pad m)))"

subsection \<open>\<^verbatim>\<open>crypto/hmac\<close> with SHA-256\<close>

text \<open>
  A key longer than the block size of 64 bytes is hashed first; the key is filled up with
  zeros to the block size and combined with the inner and outer pad bytes.
\<close>

definition hmac_sha256 :: "byte list \<Rightarrow> byte list \<Rightarrow> byte list" where
  "hmac_sha256 key msg =
     (let k = (if length key > 64 then sha256_Sum key else key);
          kp = k @ replicate (64 - length k) 0;
          ipad = map (\<lambda>b. b XOR 0x36) kp;
          opad = map (\<lambda>b. b XOR 0x5c) kp
      in sha256_Sum (opad @ sha256_Sum (ipad @ msg)))"

subsection \<open>\<^verbatim>\<open>golang.org/x/crypto/pbkdf2\<close>: \<^verbatim>\<open>Key\<close> with \<^verbatim>\<open>sha256.New\<close>\<close>

text \<open>
  For every block, \<^verbatim>\<open>U_1 = PRF(password, salt || uint32(block))\<close> and
  \<^verbatim>\<open>T = U_1 ^ U_2 ^ ... ^ U_iter\<close>; the loop \<^verbatim>\<open>for n := 2; n <= iter; n++\<close> runs
  \<^verbatim>\<open>iter - 1\<close> times, and not at all for \<^verbatim>\<open>iter\<close> below 2.  The key is the first
  \<^verbatim>\<open>keyLen\<close> bytes of the blocks \<^verbatim>\<open>1 .. numBlocks\<close> put together.
\<close>

fun pbkdf2_rounds :: "byte list \<Rightarrow> nat \<Rightarrow> byte list \<Rightarrow> byte list \<Rightarrow> byte list" where
  "pbkdf2_rounds password 0 U T = T"
| "pbkdf2_rounds password (Suc n) U T =
     (let U' = hmac_sha256 password U
      in pbkdf2_rounds password n U' (map (\<lambda>(t, u). t XOR u) (zip T U')))"

definition pbkdf2_block :: "byte list \<Rightarrow> byte list \<Rightarrow> int \<Rightarrow> nat \<Rightarrow> byte list" where
  "pbkdf2_block password salt iter block =
     (let U = hmac_sha256 password (salt @ be32_bytes (of_nat block))
      in pbkdf2_rounds password (nat (iter - 1)) U U)"

definition pbkdf2_Key :: "byte list \<Rightarrow> byte list \<Rightarrow> int \<Rightarrow> nat \<Rightarrow> byte list" where
  "pbkdf2_Key password salt iter keyLen =
     (let hashLen = 32;
          numBlocks = (keyLen + hashLen - 1) div hashLen
      in take keyLen (concat (map (pbkdf2_block password salt iter) [1..<numBlocks + 1])))"

subsection \<open>\<^verbatim>\<open>crypto/subtle\<close>\<close>

text \<open>
  \<^verbatim>\<open>ConstantTimeByteEq(x, y) = int((uint32(x^y) - 1) >> 31)\<close>;
  \<^verbatim>\<open>ConstantTimeCompare\<close> returns 0 for slices of different lengths and otherwise ORs the
  XOR of every pair of bytes into one byte, which is compared with 0.
\<close>

definition ConstantTimeByteEq :: "byte \<Rightarrow> byte \<Rightarrow> int" where
  "ConstantTimeByteEq x y = uint (drop_bit 31 ((ucast (x XOR y) :: u32) - 1))"

definition ConstantTimeCompare :: "byte list \<Rightarrow> byte list \<Rightarrow> int" where
  "ConstantTimeCompare x y =
     (if length x \<noteq> length y then 0
      else ConstantTimeByteEq (foldl (\<lambda>v (a, b). v OR (a XOR b)) 0 (zip x y)) 0)"

subsection \<open>\<^verbatim>\<open>crypto/rand\<close>\<close>

text \<open>
  The system's random source is an input of the program.  It is modelled as the sequence
  of bytes it will deliver: \<^verbatim>\<open>rand.Read(b)\<close> fills the whole buffer with the next bytes,
  or fails when the source has fewer bytes than the buffer needs.
\<close>

type_synonym rand_source = "byte list"

definition rand_Read :: "nat \<Rightarrow> rand_source \<Rightarrow> (error + byte list) \<times> rand_source" where
  "rand_Read n src =
     (if n \<le> length src then (Inr (take n src), drop n src) else (Inl RandomSourceError, src))"

section \<open>\<^verbatim>\<open>internal/util/password.go\<close>\<close>

text \<open>
  \<^verbatim>\<open>parseInt\<close> scans into a zero-initialised \<^verbatim>\<open>int\<close> and returns it with the error of
  \<^verbatim>\<open>fmt.Sscan\<close>.
\<close>

definition parseInt :: "string \<Rightarrow> int \<times> error option" where
  "parseInt s = (case scanInt s of Inl err \<Rightarrow> (0, Some err) | Inr n \<Rightarrow> (n, None))"

text \<open>
  \<^verbatim>\<open>HashPassword\<close> returns the encoded hash and the error, and here also the random source
  as the call leaves it.
\<close>

definition HashPassword :: "string \<Rightarrow> rand_source \<Rightarrow> (string \<times> error option) \<times> rand_source" where
  "HashPassword password rng =
     (if password = [] then (([], Some ErrPasswordEmpty), rng)
      else
        (case rand_Read passwordSaltBytes rng of
           (Inl err, rng') \<Rightarrow> (([], Some (ErrGenerateSalt err)), rng')
         | (Inr salt, rng') \<Rightarrow>
             (let hash = pbkdf2_Key (bytes_of_string password) salt passwordIterations
                           passwordHashBytes;
                  b64Salt = EncodeToString salt;
                  b64Hash = EncodeToString hash
              in ((passwordAlgorithmKey @ '':'' @ fmt_d passwordIterations @ '':'' @ b64Salt
                     @ '':'' @ b64Hash, None), rng'))))"

definition CheckPasswordHash :: "string \<Rightarrow> string \<Rightarrow> bool \<times> error option" where
  "CheckPasswordHash password storedHash =
     (if password = [] \<or> storedHash = [] then (False, Some ErrPasswordOrHashEmpty)
      else
        (let parts = strings_Split storedHash (CHR '':'') in
         if length parts \<noteq> 4 then (False, Some ErrInvalidHashFormat)
         else
           (let algorithm = parts ! 0 in
            if algorithm \<noteq> passwordAlgorithmKey then (False, Some ErrIncompatibleAlgorithm)
            else
              (case parseInt (parts ! 1) of
                 (_, Some err) \<Rightarrow> (False, Some (ErrParseIterations err))
               | (iterations, None) \<Rightarrow>
                   (case DecodeString (parts ! 2) of
                      Inl err \<Rightarrow> (False, Some (ErrDecodeSalt err))
                    | Inr salt \<Rightarrow>
                        (case DecodeString (parts ! 3) of
                           Inl err \<Rightarrow> (False, Some (ErrDecodeHash err))
                         | Inr hash \<Rightarrow>
                             (let comparisonHash =
                                    pbkdf2_Key (bytes_of_string password) salt iterations
                                      (length hash)
                              in if ConstantTimeCompare hash comparisonHash = 1
                                 then (True, None)
                                 else (False, None))))))))"

section \<open>\<^verbatim>\<open>internal/repository/user.go\<close>\<close>

text \<open>
  \<^verbatim>\<open>pgtype.Text\<close> is a nullable text: the value is SQL NULL when \<^verbatim>\<open>Valid\<close> is false.
  The package \<^verbatim>\<open>db/sqlc\<close> is generated and not among the sources.  Of its struct
  \<^verbatim>\<open>UpdateUserParams\<close> the repository reads and writes the field \<^verbatim>\<open>HashedPassword\<close> only;
  the other fields, which carry the parameters \<^verbatim>\<open>first_name\<close>, \<^verbatim>\<open>last_name\<close>, \<^verbatim>\<open>email\<close> and
  \<^verbatim>\<open>id\<close> of the query \<^verbatim>\<open>UpdateUser\<close> in \<^verbatim>\<open>db/queries/user.sql\<close>, are the extension of the
  record and stay a parameter of the model.
\<close>

record pgtype_Text =
  String :: string
  Valid :: bool

record UpdateUserParams =
  HashedPassword :: pgtype_Text

text \<open>
  \<^verbatim>\<open>DBUserRepository.UpdateUser\<close>.  The querier \<^verbatim>\<open>d.db\<close> is an interface value: its method
  \<^verbatim>\<open>UpdateUser\<close> is the parameter \<^verbatim>\<open>db_UpdateUser\<close>, which maps the parameters it receives
  to the user and error it returns; \<^verbatim>\<open>zeroUser\<close> is \<^verbatim>\<open>sqlc.User{}\<close>.
\<close>

definition UpdateUser ::
  "('a UpdateUserParams_scheme \<Rightarrow> 'u \<times> error option) \<Rightarrow> 'u
     \<Rightarrow> 'a UpdateUserParams_scheme \<Rightarrow> rand_source
     \<Rightarrow> ('u \<times> error option) \<times> rand_source" where
  "UpdateUser db_UpdateUser zeroUser arg rng =
     (if Valid (HashedPassword arg) \<and> String (HashedPassword arg) \<noteq> [] then
        (case HashPassword (String (HashedPassword arg)) rng of
           ((_, Some err), rng') \<Rightarrow> ((zeroUser, Some err), rng')
         | ((newHashedPassword, None), rng') \<Rightarrow>
             (db_UpdateUser
                (arg\<lparr>HashedPassword := \<lparr>String = newHashedPassword, Valid = True\<rparr>\<rparr>), rng'))
      else if \<not> Valid (HashedPassword arg) then (db_UpdateUser arg, rng)
      else if String (HashedPassword arg) = [] then
        (db_UpdateUser (arg\<lparr>HashedPassword := (HashedPassword arg)\<lparr>Valid := False\<rparr>\<rparr>), rng)
      else (db_UpdateUser arg, rng))"

section \<open>Properties of the library functions\<close>

subsection \<open>Splitting\<close>

lemma strings_Split_nonempty: "strings_Split s sep \<noteq> []"
  by (induction s) (auto split: list.splits)

lemma strings_Split_no_sep: "sep \<notin> set a \<Longrightarrow> strings_Split a sep = [a]"
  by (induction a) auto

lemma strings_Split_append:
  "sep \<notin> set a \<Longrightarrow> strings_Split (a @ sep # r) sep = a # strings_Split r sep"
  by (induction a) auto

lemma strings_Split_four:
  assumes "sep \<notin> set a" "sep \<notin> set b" "sep \<notin> set c" "sep \<notin> set d"
  shows "strings_Split (a @ sep # b @ sep # c @ sep # d) sep = [a, b, c, d]"
  using assms by (simp add: strings_Split_append strings_Split_no_sep)

subsection \<open>Base64: decoding inverts encoding\<close>

lemma digits64:
  fixes v :: nat
  assumes "v < 2 ^ 24"
  shows "(v div 2 ^ 18 mod 64) * 2 ^ 18 + (v div 2 ^ 12 mod 64) * 2 ^ 12
          + (v div 2 ^ 6 mod 64) * 2 ^ 6 + v div 2 ^ 0 mod 64 = v"
proof -
  define q1 where "q1 = v div 64"
  define q2 where "q2 = q1 div 64"
  define q3 where "q3 = q2 div 64"
  define r0 where "r0 = v mod 64"
  define r1 where "r1 = q1 mod 64"
  define r2 where "r2 = q2 mod 64"
  have e0: "v = q1 * 64 + r0" by (simp add: q1_def r0_def)
  have e1: "q1 = q2 * 64 + r1" by (simp add: q2_def r1_def)
  have e2: "q2 = q3 * 64 + r2" by (simp add: q3_def r2_def)
  have d2: "v div 2 ^ 12 = q2" by (simp add: q2_def q1_def div_mult2_eq[symmetric])
  have d3: "v div 2 ^ 18 = q3" by (simp add: q3_def q2_def q1_def div_mult2_eq[symmetric])
  have "q3 < 64" using assms unfolding d3[symmetric] by (simp add: less_mult_imp_div_less)
  then have m3: "q3 mod 64 = q3" by simp
  have "q3 * 2 ^ 18 + r2 * 2 ^ 12 + r1 * 2 ^ 6 + r0 = v"
    using e0 e1 e2 by simp
  then show ?thesis
    unfolding d2 d3 m3 by (simp add: q1_def[symmetric] r0_def r1_def r2_def)
qed

lemma of_nat_byte_eq: "n mod 256 = unat (b::byte) \<Longrightarrow> of_nat n = b"
proof -
  assume h: "n mod 256 = unat b"
  have "(of_nat n :: byte) = of_nat (n mod 256)"
    by (simp add: word_of_nat_eq_iff take_bit_eq_mod)
  then show ?thesis by (simp add: h)
qed

lemma unat_byte_less: "unat (b::byte) < 256"
  using unsigned_less[of b, where ?'a = nat] by simp

lemma div_mod_step:
  fixes k m r :: nat
  assumes "r < m"
  shows "(k * m + r) div m = k" and "(k * m + r) mod m = r"
  using assms by simp_all

lemma split_bytes:
  fixes x y z :: nat
  assumes "y < 256" "z < 256"
  shows "(x * 2 ^ 16 + y * 2 ^ 8 + z) div 2 ^ 16 = x"
    and "(x * 2 ^ 16 + y * 2 ^ 8 + z) div 2 ^ 8 mod 256 = y"
    and "(x * 2 ^ 16 + y * 2 ^ 8 + z) mod 256 = z"
proof -
  have lt: "y * 256 + z < 65536" using assms by simp
  have e1: "x * 2 ^ 16 + y * 2 ^ 8 + z = x * 65536 + (y * 256 + z)" by simp
  have e2: "x * 2 ^ 16 + y * 2 ^ 8 + z = (x * 256 + y) * 256 + z" by simp
  have p16: "(2::nat) ^ 16 = 65536" and p8: "(2::nat) ^ 8 = 256" by simp_all
  show "(x * 2 ^ 16 + y * 2 ^ 8 + z) div 2 ^ 16 = x"
    by (subst e1) (simp only: p16 div_mod_step(1)[OF lt])
  show "(x * 2 ^ 16 + y * 2 ^ 8 + z) div 2 ^ 8 mod 256 = y"
    by (subst e2) (simp only: p8 div_mod_step(1)[OF assms(2)] div_mod_step(2)[OF assms(1)])
  show "(x * 2 ^ 16 + y * 2 ^ 8 + z) mod 256 = z"
    by (subst e2) (simp only: div_mod_step(2)[OF assms(2)])
qed

lemma val24: "unat (a::byte) * 2 ^ 16 + unat (b::byte) * 2 ^ 8 + unat (c::byte) < 2 ^ 24"
  using unat_byte_less[of a] unat_byte_less[of b] unat_byte_less[of c] by simp

lemma quantum_bytes4:
  "quantum_bytes [d0, d1, d2, d3] =
     [of_nat ((d0 * 2 ^ 18 + d1 * 2 ^ 12 + d2 * 2 ^ 6 + d3) div 2 ^ 16),
      of_nat ((d0 * 2 ^ 18 + d1 * 2 ^ 12 + d2 * 2 ^ 6 + d3) div 2 ^ 8),
      of_nat (d0 * 2 ^ 18 + d1 * 2 ^ 12 + d2 * 2 ^ 6 + d3)]"
  by (simp add: quantum_bytes_def Let_def)

lemma quantum_bytes3:
  "quantum_bytes [d0, d1, d2] =
     [of_nat ((d0 * 2 ^ 18 + d1 * 2 ^ 12 + d2 * 2 ^ 6) div 2 ^ 16),
      of_nat ((d0 * 2 ^ 18 + d1 * 2 ^ 12 + d2 * 2 ^ 6) div 2 ^ 8)]"
  by (simp add: quantum_bytes_def Let_def)

lemma quantum_bytes2:
  "quantum_bytes [d0, d1] = [of_nat ((d0 * 2 ^ 18 + d1 * 2 ^ 12) div 2 ^ 16)]"
  by (simp add: quantum_bytes_def Let_def)


lemma quantum4:
  fixes a b c :: byte
  defines "v \<equiv> unat a * 2 ^ 16 + unat b * 2 ^ 8 + unat c"
  shows "quantum_bytes [v div 2 ^ 18 mod 64, v div 2 ^ 12 mod 64, v div 2 ^ 6 mod 64,
           v div 2 ^ 0 mod 64] = [a, b, c]"
proof -
  have v: "v < 2 ^ 24" unfolding v_def by (rule val24)
  have a: "of_nat (v div 2 ^ 16) = a"
    unfolding v_def by (simp only: split_bytes(1)[OF unat_byte_less unat_byte_less]) simp
  have b: "of_nat (v div 2 ^ 8) = b"
    unfolding v_def by (rule of_nat_byte_eq) (simp only: split_bytes(2)[OF unat_byte_less unat_byte_less])
  have c: "of_nat v = c"
    unfolding v_def by (rule of_nat_byte_eq) (simp only: split_bytes(3)[OF unat_byte_less unat_byte_less])
  show ?thesis
    by (simp only: quantum_bytes4 digits64[OF v] a b c)
qed

lemma quantum3:
  fixes a b :: byte
  defines "v \<equiv> unat a * 2 ^ 16 + unat b * 2 ^ 8"
  shows "quantum_bytes [v div 2 ^ 18 mod 64, v div 2 ^ 12 mod 64, v div 2 ^ 6 mod 64] = [a, b]"
proof -
  have v0: "v = unat a * 2 ^ 16 + unat b * 2 ^ 8 + unat (0::byte)"
    unfolding v_def by simp
  have v: "v < 2 ^ 24" unfolding v0 by (rule val24)
  have a: "of_nat (v div 2 ^ 16) = a"
    unfolding v0 by (simp only: split_bytes(1)[OF unat_byte_less unat_byte_less]) simp
  have b: "of_nat (v div 2 ^ 8) = b"
    unfolding v0 by (rule of_nat_byte_eq) (simp only: split_bytes(2)[OF unat_byte_less unat_byte_less])
  have "v = (unat a * 1024 + unat b * 4) * 64" unfolding v_def by simp
  then have "v mod 64 = 0" by simp
  then have z: "v div 2 ^ 0 mod 64 = 0" by simp
  have "(v div 2 ^ 18 mod 64) * 2 ^ 18 + (v div 2 ^ 12 mod 64) * 2 ^ 12
          + (v div 2 ^ 6 mod 64) * 2 ^ 6 = v"
    using digits64[OF v] unfolding z by (simp only: add_0_right)
  then show ?thesis
    by (simp only: quantum_bytes3 a b)
qed

lemma quantum2:
  fixes a :: byte
  defines "v \<equiv> unat a * 2 ^ 16"
  shows "quantum_bytes [v div 2 ^ 18 mod 64, v div 2 ^ 12 mod 64] = [a]"
proof -
  have v0: "v = unat a * 2 ^ 16 + unat (0::byte) * 2 ^ 8 + unat (0::byte)"
    unfolding v_def by simp
  have v: "v < 2 ^ 24" unfolding v0 by (rule val24)
  have a: "of_nat (v div 2 ^ 16) = a"
    unfolding v0 by (simp only: split_bytes(1)[OF unat_byte_less unat_byte_less]) simp
  have e: "v = (unat a * 1024) * 64" unfolding v_def by simp
  then have "v mod 64 = 0" by simp
  then have z: "v div 2 ^ 0 mod 64 = 0" by simp
  have "v div 64 = unat a * 1024" unfolding e by simp
  then have "v div 64 = (unat a * 16) * 64" by simp
  then have "v div 64 mod 64 = 0" by simp
  then have z1: "v div 2 ^ 6 mod 64 = 0" by simp
  have "(v div 2 ^ 18 mod 64) * 2 ^ 18 + (v div 2 ^ 12 mod 64) * 2 ^ 12 = v"
    using digits64[OF v] unfolding z z1 by (simp only: add_0_right mult_zero_left)
  then show ?thesis
    by (simp only: quantum_bytes2 a)
qed

lemma distinct_encodeStd: "distinct encodeStd" by (simp add: encodeStd_def)
lemma length_encodeStd: "length encodeStd = 64" by (simp add: encodeStd_def)
lemma decodeMap_encodeStd: "i < 64 \<Longrightarrow> decodeMap (encodeStd ! i) = Some i"
  unfolding decodeMap_def
  using map_of_zip_nth[of encodeStd "[0..<64]" i] distinct_encodeStd length_encodeStd by simp

lemma decodeMap_enc6: "decodeMap (enc6 v s) = Some (v div 2 ^ s mod 64)"
  unfolding enc6_def by (rule decodeMap_encodeStd) simp

lemma enc6_in_alphabet: "enc6 v s \<in> set encodeStd"
  unfolding enc6_def by (rule nth_mem) (simp add: length_encodeStd)

lemma decode4:
  assumes "decodeMap c0 = Some d0" "decodeMap c1 = Some d1"
          "decodeMap c2 = Some d2" "decodeMap c3 = Some d3"
  shows "decode_from si [] (c0 # c1 # c2 # c3 # cs) =
           (case decode_from (si + 4) [] cs of
              Inl e \<Rightarrow> Inl e
            | Inr bs \<Rightarrow> Inr (quantum_bytes [d0, d1, d2, d3] @ bs))"
  using assms by (simp add: numeral_eq_Suc split: sum.split)

lemma decode3:
  assumes "decodeMap c0 = Some d0" "decodeMap c1 = Some d1" "decodeMap c2 = Some d2"
  shows "decode_from si [] [c0, c1, c2] = Inr (quantum_bytes [d0, d1, d2])"
  using assms by simp

lemma decode2:
  assumes "decodeMap c0 = Some d0" "decodeMap c1 = Some d1"
  shows "decode_from si [] [c0, c1] = Inr (quantum_bytes [d0, d1])"
  using assms by simp

lemma decode_from_EncodeToString: "decode_from si [] (EncodeToString bs) = Inr bs"
proof (induction bs arbitrary: si rule: EncodeToString.induct)
  case (1 a b c rest)
  show ?case
    by (simp only: EncodeToString.simps Let_def
          decode4[OF decodeMap_enc6 decodeMap_enc6 decodeMap_enc6 decodeMap_enc6]
          quantum4 "1.IH" sum.case append_Cons append_Nil)
next
  case (2 a b)
  show ?case
    by (simp only: EncodeToString.simps Let_def
          decode3[OF decodeMap_enc6 decodeMap_enc6 decodeMap_enc6] quantum3)
next
  case (3 a)
  show ?case
    by (simp only: EncodeToString.simps Let_def
          decode2[OF decodeMap_enc6 decodeMap_enc6] quantum2)
next
  case 4
  show ?case by simp
qed

lemma DecodeString_EncodeToString: "DecodeString (EncodeToString bs) = Inr bs"
  unfolding DecodeString_def by (rule decode_from_EncodeToString)

lemma set_EncodeToString: "set (EncodeToString bs) \<subseteq> set encodeStd"
  by (induction bs rule: EncodeToString.induct) (simp_all add: Let_def enc6_in_alphabet)

lemma colon_not_in_alphabet: "CHR '':'' \<notin> set encodeStd"
  by (simp add: encodeStd_def)

lemma colon_not_in_EncodeToString: "CHR '':'' \<notin> set (EncodeToString bs)"
  using set_EncodeToString[of bs] colon_not_in_alphabet by blast

lemma length_EncodeToString: "length (EncodeToString bs) = (4 * length bs + 2) div 3"
  by (induction bs rule: EncodeToString.induct) (simp_all add: Let_def)

subsection \<open>Scanning and printing the iteration count\<close>

lemma fmt_d_iterations: "fmt_d 1000000 = ''1000000''"
  by (simp add: fmt_d_def dec_digits.simps char_of_def bit_Suc_0_iff)

lemma SkipSpace_digit: "SkipSpace ''1000000'' = ''1000000''"
  by (simp add: SkipSpace.simps space_width_def)

lemma scanNumber_iterations:
  "scanNumber (decimalDigits @ ''_'') False ([], ''1000000'') = Inr ''1000000''"
  by (simp add: scanNumber_def decimalDigits_def)

lemma ParseUint_iterations: "ParseUint ''1000000'' = Inr 1000000"
  by (simp add: ParseUint_def digit_val_def maxUint64_def)

lemma ParseInt_iterations: "ParseInt ''1000000'' = Inr 1000000"
  by (simp add: ParseInt_def ParseUint_iterations)

lemma parseInt_iterations: "parseInt ''1000000'' = (1000000, None)"
  by (simp add: parseInt_def scanInt_def SkipSpace_digit scanBasePrefix_def
        scanNumber_iterations ParseInt_iterations)

subsection \<open>The derived key has the requested length\<close>

lemma length_sha256_digest: "length (sha256_digest st) = 32"
  by (induction st rule: sha256_digest.induct) (simp add: be32_bytes_def)

lemma length_sha256_Sum: "length (sha256_Sum m) = 32"
  unfolding sha256_Sum_def by (rule length_sha256_digest)

lemma length_hmac: "length (hmac_sha256 k m) = 32"
  by (simp add: hmac_sha256_def Let_def length_sha256_Sum)

lemma length_rounds: "length U = 32 \<Longrightarrow> length T = 32 \<Longrightarrow> length (pbkdf2_rounds pw n U T) = 32"
  by (induction n arbitrary: U T) (simp_all add: Let_def length_hmac)

lemma length_block: "length (pbkdf2_block pw salt iter blk) = 32"
  by (simp add: pbkdf2_block_def Let_def length_rounds length_hmac)

lemma length_concat_blocks: "length (concat (map (pbkdf2_block pw salt iter) bs)) = 32 * length bs"
  by (induction bs) (simp_all add: length_block)

lemma length_pbkdf2_Key: "length (pbkdf2_Key pw salt iter keyLen) = keyLen"
proof -
  define m where "m = keyLen + 32 - 1"
  define nb where "nb = m div 32"
  have "m = nb * 32 + m mod 32"
    unfolding nb_def by (simp only: div_mult_mod_eq)
  moreover have "m mod 32 < 32" by simp
  moreover have "m = keyLen + 31" unfolding m_def by simp
  ultimately have le: "keyLen \<le> 32 * nb" by linarith
  have "length [1..<nb + 1] = nb" by simp
  then have "length (concat (map (pbkdf2_block pw salt iter) [1..<nb + 1])) = 32 * nb"
    by (simp only: length_concat_blocks)
  then show ?thesis
    unfolding pbkdf2_Key_def Let_def m_def[symmetric] nb_def[symmetric]
    using le by (simp only: length_take)
qed

subsection \<open>What the constant-time comparison returns\<close>

lemma unat_ucast_byte: "unat (ucast (v::byte) :: u32) = unat v"
proof -
  have "unat v < 2 ^ 8" using unsigned_less[of v, where ?'a = nat] by simp
  then have "unat v < 2 ^ 32" by simp
  then have "take_bit 32 (unat v) = unat v" by (simp only: take_bit_nat_eq_self_iff)
  then show ?thesis by (simp add: unsigned_ucast_eq)
qed

lemma ConstantTimeByteEq_zero: "ConstantTimeByteEq v 0 = (if v = 0 then 1 else 0)"
proof (cases "v = 0")
  case True
  then show ?thesis by (simp add: ConstantTimeByteEq_def)
next
  case False
  let ?w = "ucast v :: u32"
  have nz: "?w \<noteq> 0" using False unat_ucast_byte[of v]
    by (metis unat_eq_0)
  have "unat ?w < 256"
    using unsigned_less[of v, where ?'a = nat] by (simp add: unat_ucast_byte)
  then have "unat (?w - 1) < 2 ^ 31"
    using nz by (simp add: unat_minus_one)
  then have "drop_bit 31 (unat (?w - 1)) = 0"
    by (simp add: drop_bit_eq_div)
  then have "unat (drop_bit 31 (?w - 1)) = 0"
    by (simp only: unat_drop_bit_eq)
  then have "drop_bit 31 (?w - 1) = 0"
    by (simp only: unat_eq_0)
  then show ?thesis using False by (simp add: ConstantTimeByteEq_def)
qed

lemma xor_byte_eq_0: "a XOR b = (0::byte) \<longleftrightarrow> a = b"
proof
  assume "a XOR b = 0"
  then have "(a XOR b) XOR b = 0 XOR b" by (simp only:)
  then show "a = b" by (simp add: xor.assoc)
qed simp

lemma fold_or_xor:
  "length x = length y \<Longrightarrow>
   foldl (\<lambda>v (a, b). v OR (a XOR b)) v0 (zip x y) = (0::byte) \<longleftrightarrow> v0 = 0 \<and> x = y"
proof (induction x y arbitrary: v0 rule: list_induct2)
  case Nil
  show ?case by simp
next
  case (Cons a x b y)
  have "foldl (\<lambda>v (a, b). v OR (a XOR b)) v0 (zip (a # x) (b # y)) =
          foldl (\<lambda>v (a, b). v OR (a XOR b)) (v0 OR (a XOR b)) (zip x y)"
    by simp
  then show ?case
    by (simp only: Cons.IH or_eq_0_iff xor_byte_eq_0 list.inject) blast
qed

lemma ConstantTimeCompare_eq: "ConstantTimeCompare x y = (if x = y then 1 else 0)"
proof (cases "length x = length y")
  case True
  have "ConstantTimeCompare x y =
          (if foldl (\<lambda>v (a, b). v OR (a XOR b)) 0 (zip x y) = 0 then 1 else 0)"
    using True by (simp only: ConstantTimeCompare_def ConstantTimeByteEq_zero not_True_eq_False if_False simp_thms)
  also have "\<dots> = (if x = y then 1 else 0)"
    by (simp only: fold_or_xor[OF True] simp_thms)
  finally show ?thesis .
next
  case False
  then have "x \<noteq> y" by auto
  then show ?thesis using False by (simp only: ConstantTimeCompare_def if_True if_False simp_thms)
qed

subsection \<open>Concrete fields\<close>

lemma SkipSpace_no_space: "space_width s = 0 \<Longrightarrow> SkipSpace s = s"
  by (simp add: SkipSpace.simps)

lemma parseInt_zero: "parseInt ''0'' = (0, None)"
  by (simp add: parseInt_def scanInt_def SkipSpace_no_space space_width_def scanBasePrefix_def
        scanNumber_def ParseInt_def ParseUint_def octalDigits_def)

lemma parseInt_one: "parseInt ''1'' = (1, None)"
  by (simp add: parseInt_def scanInt_def SkipSpace_no_space space_width_def scanBasePrefix_def
        scanNumber_def ParseInt_def ParseUint_def decimalDigits_def digit_val_def maxUint64_def)

lemma parseInt_abc: "parseInt ''abc'' = (0, Some ScanExpectedInteger)"
  by (simp add: parseInt_def scanInt_def SkipSpace_no_space space_width_def scanBasePrefix_def
        scanNumber_def decimalDigits_def)

lemma decodeMap_A: "decodeMap (CHR ''A'') = Some 0"
  using decodeMap_encodeStd[of 0] by (simp add: encodeStd_def)

lemma decodeMap_B: "decodeMap (CHR ''B'') = Some 1"
  using decodeMap_encodeStd[of 1] by (simp add: encodeStd_def)

lemma decodeMap_None_iff: "decodeMap c = None \<longleftrightarrow> c \<notin> set encodeStd"
proof -
  have "map fst (zip encodeStd [0..<64]) = encodeStd"
    by (rule map_fst_zip) (simp add: length_encodeStd)
  then have "fst ` set (zip encodeStd [0..<64]) = set encodeStd"
    by (metis set_map)
  then show ?thesis
    by (simp only: decodeMap_def map_of_eq_None_iff)
qed

lemma decodeMap_bang: "decodeMap (CHR ''!'') = None"
  by (simp add: decodeMap_None_iff encodeStd_def)

lemma DecodeString_AA: "DecodeString ''AA'' = Inr [0]"
  by (simp only: DecodeString_def decode2[OF decodeMap_A decodeMap_A] quantum_bytes2) simp

lemma DecodeString_BB: "DecodeString ''BB'' = Inr [4]"
  by (simp only: DecodeString_def decode2[OF decodeMap_B decodeMap_B] quantum_bytes2) simp

lemma DecodeString_A_bang: "DecodeString ''A!'' = Inl (CorruptInputError 1)"
  by (simp add: DecodeString_def decodeMap_A decodeMap_bang)

lemma DecodeString_EA: "DecodeString ''EA'' = Inr [16]"
proof -
  have E: "decodeMap (CHR ''E'') = Some 4"
    using decodeMap_encodeStd[of 4] by (simp add: encodeStd_def)
  show ?thesis
    by (simp only: DecodeString_def decode2[OF E decodeMap_A] quantum_bytes2) simp
qed

lemma DecodeString_EB: "DecodeString ''EB'' = Inr [16]"
proof -
  have E: "decodeMap (CHR ''E'') = Some 4"
    using decodeMap_encodeStd[of 4] by (simp add: encodeStd_def)
  show ?thesis
    by (simp only: DecodeString_def decode2[OF E decodeMap_B] quantum_bytes2) simp
qed

lemma decodeMap_Some: "c \<in> set encodeStd \<Longrightarrow> \<exists>out. decodeMap c = Some out"
  using decodeMap_None_iff[of c] by (cases "decodeMap c") auto

lemma decode_from_bad_char:
  assumes "set pre \<subseteq> set encodeStd" and "decodeMap c = None"
    and "c \<noteq> CHR 0x0A" and "c \<noteq> CHR 0x0D"
  shows "decode_from si dbuf (pre @ c # rest) = Inl (CorruptInputError (si + length pre))"
  using assms(1)
proof (induction pre arbitrary: si dbuf)
  case Nil
  show ?case using assms(2-4) by simp
next
  case (Cons x pre)
  from Cons.prems obtain out where out: "decodeMap x = Some out"
    using decodeMap_Some[of x] by auto
  from Cons.prems have sub: "set pre \<subseteq> set encodeStd" by simp
  show ?case
    by (simp add: out Cons.IH[OF sub])
qed

lemma DecodeString_bad_char:
  assumes "set pre \<subseteq> set encodeStd" and "decodeMap c = None"
    and "c \<noteq> CHR 0x0A" and "c \<noteq> CHR 0x0D"
  shows "DecodeString (pre @ c # rest) = Inl (CorruptInputError (length pre))"
  unfolding DecodeString_def using decode_from_bad_char[OF assms, of 0 "[]" rest] by simp

subsection \<open>Base64: encoding inverts decoding on whole quanta\<close>

text \<open>
  A text of 4n characters of the alphabet decodes to 3n bytes whose encoding is the text
  again, and decoding continues behind it as from the start.  So a digest of 43 characters
  in which one of the first 42 characters is replaced by another character of the alphabet
  decodes to other bytes of the same length.
\<close>

lemma decodeMap_Some_iff: "decodeMap c = Some d \<longleftrightarrow> d < 64 \<and> encodeStd ! d = c"
proof
  assume "decodeMap c = Some d"
  then have "(c, d) \<in> set (zip encodeStd [0..<64])"
    unfolding decodeMap_def by (rule map_of_SomeD)
  then obtain i where i: "i < 64" "encodeStd ! i = c" "[0..<64] ! i = d"
    by (auto simp: in_set_zip length_encodeStd)
  then show "d < 64 \<and> encodeStd ! d = c" by simp
next
  assume "d < 64 \<and> encodeStd ! d = c"
  then show "decodeMap c = Some d" using decodeMap_encodeStd[of d] by auto
qed

lemma EncodeToString_append:
  "length xs mod 3 = 0 \<Longrightarrow> EncodeToString (xs @ ys) = EncodeToString xs @ EncodeToString ys"
proof (induction xs rule: EncodeToString.induct)
  case (1 a b c rest)
  then have "length rest mod 3 = 0" by simp
  then show ?case using 1 by (simp add: Let_def)
qed simp_all

lemma digits256:
  fixes v :: nat
  assumes "v < 2 ^ 24"
  shows "(v div 2 ^ 16 mod 256) * 2 ^ 16 + (v div 2 ^ 8 mod 256) * 2 ^ 8 + v mod 256 = v"
proof -
  define q1 where "q1 = v div 256"
  define q2 where "q2 = q1 div 256"
  define r0 where "r0 = v mod 256"
  define r1 where "r1 = q1 mod 256"
  have e0: "v = q1 * 256 + r0" by (simp add: q1_def r0_def)
  have e1: "q1 = q2 * 256 + r1" by (simp add: q2_def r1_def)
  have d1: "v div 2 ^ 8 = q1" by (simp add: q1_def)
  have d2: "v div 2 ^ 16 = q2" by (simp add: q2_def q1_def div_mult2_eq[symmetric])
  have "q2 < 256" using assms unfolding d2[symmetric] by (simp add: less_mult_imp_div_less)
  then have m2: "q2 mod 256 = q2" by simp
  have "q2 * 2 ^ 16 + r1 * 2 ^ 8 + r0 = v"
    using e0 e1 by simp
  then show ?thesis
    unfolding d1 d2 m2 by (simp add: r0_def r1_def)
qed

lemma sextets:
  fixes d0 d1 d2 d3 :: nat
  assumes "d0 < 64" "d1 < 64" "d2 < 64" "d3 < 64"
  defines "val \<equiv> d0 * 2 ^ 18 + d1 * 2 ^ 12 + d2 * 2 ^ 6 + d3"
  shows "val < 2 ^ 24"
    and "val div 2 ^ 18 mod 64 = d0" and "val div 2 ^ 12 mod 64 = d1"
    and "val div 2 ^ 6 mod 64 = d2" and "val div 2 ^ 0 mod 64 = d3"
proof -
  have e: "val = ((d0 * 64 + d1) * 64 + d2) * 64 + d3" unfolding val_def by simp
  have q1: "val div 64 = (d0 * 64 + d1) * 64 + d2"
    unfolding e by (rule div_mod_step(1)[OF assms(4)])
  have q2: "val div 64 div 64 = d0 * 64 + d1"
    unfolding q1 by (rule div_mod_step(1)[OF assms(3)])
  have q3: "val div 64 div 64 div 64 = d0"
    unfolding q2 by (rule div_mod_step(1)[OF assms(2)])
  have p6: "val div 2 ^ 6 = val div 64" by simp
  have p12: "val div 2 ^ 12 = val div 64 div 64" by (simp add: div_mult2_eq[symmetric])
  have p18: "val div 2 ^ 18 = val div 64 div 64 div 64" by (simp add: div_mult2_eq[symmetric])
  show "val div 2 ^ 18 mod 64 = d0" unfolding p18 q3 using assms(1) by simp
  show "val div 2 ^ 12 mod 64 = d1" unfolding p12 q2 by (rule div_mod_step(2)[OF assms(2)])
  show "val div 2 ^ 6 mod 64 = d2" unfolding p6 q1 by (rule div_mod_step(2)[OF assms(3)])
  have "val mod 64 = d3" unfolding e by (rule div_mod_step(2)[OF assms(4)])
  then show "val div 2 ^ 0 mod 64 = d3" by simp
  show "val < 2 ^ 24" unfolding val_def using assms by simp
qed

lemma unat_of_nat_byte: "unat (of_nat n :: byte) = n mod 256"
  by (simp add: unat_of_nat)

lemma quantum4_rev:
  fixes b0 b1 b2 :: byte
  assumes "d0 < 64" "d1 < 64" "d2 < 64" "d3 < 64"
    and q: "quantum_bytes [d0, d1, d2, d3] = [b0, b1, b2]"
  defines "v \<equiv> unat b0 * 2 ^ 16 + unat b1 * 2 ^ 8 + unat b2"
  shows "v div 2 ^ 18 mod 64 = d0 \<and> v div 2 ^ 12 mod 64 = d1 \<and>
         v div 2 ^ 6 mod 64 = d2 \<and> v div 2 ^ 0 mod 64 = d3"
proof -
  define val where "val = d0 * 2 ^ 18 + d1 * 2 ^ 12 + d2 * 2 ^ 6 + d3"
  note s = sextets[OF assms(1-4), folded val_def]
  from q have b: "b0 = of_nat (val div 2 ^ 16)" "b1 = of_nat (val div 2 ^ 8)" "b2 = of_nat val"
    unfolding quantum_bytes4 val_def by simp_all
  have "v = (val div 2 ^ 16 mod 256) * 2 ^ 16 + (val div 2 ^ 8 mod 256) * 2 ^ 8 + val mod 256"
    unfolding v_def b by (simp only: unat_of_nat_byte)
  then have "v = val" by (simp only: digits256[OF s(1)])
  then show ?thesis using s(2-5) by (simp only: simp_thms)
qed

lemma EncodeToString_quantum:
  assumes "decodeMap c0 = Some d0" "decodeMap c1 = Some d1"
          "decodeMap c2 = Some d2" "decodeMap c3 = Some d3"
  shows "EncodeToString (quantum_bytes [d0, d1, d2, d3] @ bs)
           = c0 # c1 # c2 # c3 # EncodeToString bs"
proof -
  from assms have d: "d0 < 64" "d1 < 64" "d2 < 64" "d3 < 64"
    and c: "encodeStd ! d0 = c0" "encodeStd ! d1 = c1" "encodeStd ! d2 = c2" "encodeStd ! d3 = c3"
    by (simp_all add: decodeMap_Some_iff)
  obtain b0 b1 b2 where q: "quantum_bytes [d0, d1, d2, d3] = [b0, b1, b2]"
    unfolding quantum_bytes4 by blast
  note r = quantum4_rev[OF d q]
  show ?thesis
    unfolding q by (simp only: append_Cons append_Nil EncodeToString.simps Let_def enc6_def r c)
qed

lemma decode_full:
  assumes "length P = 4 * n" and "set P \<subseteq> set encodeStd"
  shows "\<exists>bs. length bs = 3 * n \<and> EncodeToString bs = P \<and>
           (\<forall>si R. decode_from si [] (P @ R) =
              (case decode_from (si + 4 * n) [] R of
                 Inl e \<Rightarrow> Inl e
               | Inr bs' \<Rightarrow> Inr (bs @ bs')))"
  using assms
proof (induction n arbitrary: P)
  case 0
  then have "P = []" by simp
  then show ?case by (auto split: sum.splits)
next
  case (Suc n)
  from Suc.prems(1) obtain c0 c1 c2 c3 P' where P: "P = c0 # c1 # c2 # c3 # P'"
    and len: "length P' = 4 * n"
    by (cases P; simp; rename_tac P1; case_tac P1; simp; rename_tac P2; case_tac P2; simp;
        rename_tac P3; case_tac P3; simp)
  from Suc.prems(2) P have sub: "set P' \<subseteq> set encodeStd"
    and "c0 \<in> set encodeStd" "c1 \<in> set encodeStd" "c2 \<in> set encodeStd" "c3 \<in> set encodeStd"
    by simp_all
  then obtain d0 d1 d2 d3 where d: "decodeMap c0 = Some d0" "decodeMap c1 = Some d1"
      "decodeMap c2 = Some d2" "decodeMap c3 = Some d3"
    using decodeMap_Some by meson
  from Suc.IH[OF len sub] obtain bs where bs: "length bs = 3 * n" "EncodeToString bs = P'"
    and dec: "\<And>si R. decode_from si [] (P' @ R) =
              (case decode_from (si + 4 * n) [] R of Inl e \<Rightarrow> Inl e | Inr bs' \<Rightarrow> Inr (bs @ bs'))"
    by blast
  let ?q = "quantum_bytes [d0, d1, d2, d3]"
  have lq: "length ?q = 3" unfolding quantum_bytes4 by simp
  have "length (?q @ bs) = 3 * Suc n" using lq bs(1) by simp
  moreover have "EncodeToString (?q @ bs) = P"
    unfolding P by (simp only: EncodeToString_quantum[OF d] bs(2))
  moreover have "decode_from si [] (P @ R) =
      (case decode_from (si + 4 * Suc n) [] R of Inl e \<Rightarrow> Inl e | Inr bs' \<Rightarrow> Inr ((?q @ bs) @ bs'))"
    for si R
  proof -
    have "decode_from si [] (P @ R) =
            (case decode_from (si + 4) [] (P' @ R) of Inl e \<Rightarrow> Inl e | Inr x \<Rightarrow> Inr (?q @ x))"
      unfolding P by (simp only: append_Cons decode4[OF d])
    also have "\<dots> = (case decode_from (si + 4 * Suc n) [] R of
                        Inl e \<Rightarrow> Inl e | Inr bs' \<Rightarrow> Inr ((?q @ bs) @ bs'))"
      unfolding dec by (simp add: add.assoc split: sum.splits)
    finally show ?thesis .
  qed
  ultimately show ?case by blast
qed

lemma quantum3_val_eq:
  fixes d0 d1 d2 d0' d1' :: nat
  assumes "d0 < 64" "d1 < 64" "d2 < 64" "d0' < 64" "d1' < 64"
    and q: "quantum_bytes [d0, d1, d2] = quantum_bytes [d0', d1', d2]"
  shows "d0 = d0' \<and> d1 = d1'"
proof -
  define val where "val = d0 * 2 ^ 18 + d1 * 2 ^ 12 + d2 * 2 ^ 6 + 0"
  define val' where "val' = d0' * 2 ^ 18 + d1' * 2 ^ 12 + d2 * 2 ^ 6 + 0"
  have z: "(0::nat) < 64" by simp
  note s = sextets[OF assms(1-3) z, folded val_def]
  note s' = sextets[OF assms(4,5,3) z, folded val'_def]
  from q have b: "(of_nat (val div 2 ^ 16) :: byte) = of_nat (val' div 2 ^ 16)"
    "(of_nat (val div 2 ^ 8) :: byte) = of_nat (val' div 2 ^ 8)"
    unfolding quantum_bytes3 val_def val'_def by simp_all
  from b(1) have h: "val div 2 ^ 16 mod 256 = val' div 2 ^ 16 mod 256"
    by (metis unat_of_nat_byte)
  from b(2) have m: "val div 2 ^ 8 mod 256 = val' div 2 ^ 8 mod 256"
    by (metis unat_of_nat_byte)
  have "val = (d0 * 1024 + d1 * 16) * 256 + d2 * 64" unfolding val_def by simp
  then have l: "val mod 256 = (d2 * 64) mod 256" by (simp only: mod_mult_self3)
  have "val' = (d0' * 1024 + d1' * 16) * 256 + d2 * 64" unfolding val'_def by simp
  then have l': "val' mod 256 = (d2 * 64) mod 256" by (simp only: mod_mult_self3)
  have "val = val'"
    using digits256[OF s(1)] digits256[OF s'(1)] unfolding h m l l' by simp
  then show ?thesis using s(2,3) s'(2,3) by simp
qed

lemma decodeMap_inj: "decodeMap c = Some d \<Longrightarrow> decodeMap c' = Some d \<Longrightarrow> c = c'"
  by (simp add: decodeMap_Some_iff)

lemma tampered_digest_decodes:
  assumes len: "length K = 32" and i: "i < 42" and c: "c \<in> set encodeStd"
  shows "\<exists>K'. DecodeString ((EncodeToString K)[i := c]) = Inr K' \<and> length K' = 32 \<and>
           (K' = K \<longleftrightarrow> c = EncodeToString K ! i)"
proof -
  define K30 where "K30 = take 30 K"
  have l30: "length K30 = 30" unfolding K30_def using len by simp
  have "length (drop 30 K) = 2" using len by simp
  then obtain a b where ab: "drop 30 K = [a, b]"
    by (cases "drop 30 K"; simp; rename_tac t; case_tac t; simp)
  have K: "K = K30 @ [a, b]" unfolding K30_def ab[symmetric] by simp
  define P where "P = EncodeToString K30"
  define v where "v = unat a * 2 ^ 16 + unat b * 2 ^ 8"
  define R where "R = [enc6 v 18, enc6 v 12, enc6 v 6]"
  have R: "EncodeToString [a, b] = R" unfolding R_def v_def by (simp add: Let_def)
  have D: "EncodeToString K = P @ R"
    unfolding K P_def R[symmetric] by (rule EncodeToString_append) (simp add: l30)
  have lP: "length P = 4 * 10" unfolding P_def by (simp add: length_EncodeToString l30)
  have sP: "set P \<subseteq> set encodeStd" unfolding P_def by (rule set_EncodeToString)
  have decR: "decode_from si [] R = Inr [a, b]" for si
    unfolding R[symmetric] by (rule decode_from_EncodeToString)
  have decP: "decode_from 0 [] P = Inr K30"
    unfolding P_def by (rule decode_from_EncodeToString)
  show ?thesis
  proof (cases "i < 40")
    case True
    define P' where "P' = P[i := c]"
    have upd: "(EncodeToString K)[i := c] = P' @ R"
      unfolding D P'_def using True lP by (simp add: list_update_append1)
    have lP': "length P' = 4 * 10" unfolding P'_def using lP by simp
    have sP': "set P' \<subseteq> set encodeStd"
      unfolding P'_def using set_update_subset_insert[of P i c] sP c by blast
    obtain bs' where bs': "length bs' = 3 * 10" "EncodeToString bs' = P'"
      and dec': "\<And>si R. decode_from si [] (P' @ R) =
              (case decode_from (si + 4 * 10) [] R of Inl e \<Rightarrow> Inl e | Inr x \<Rightarrow> Inr (bs' @ x))"
      using decode_full[OF lP' sP'] by blast
    have d: "DecodeString (P' @ R) = Inr (bs' @ [a, b])"
      unfolding DecodeString_def dec' decR by simp
    have "bs' = K30 \<longleftrightarrow> P' = P"
    proof
      assume "bs' = K30"
      then show "P' = P" using bs'(2) P_def by simp
    next
      assume "P' = P"
      then have "decode_from 0 [] (P' @ []) = Inr K30" using decP by simp
      then show "bs' = K30" unfolding dec' by simp
    qed
    also have "\<dots> \<longleftrightarrow> c = P ! i"
      unfolding P'_def using True lP by (auto simp: list_update_same_conv)
    also have "P ! i = EncodeToString K ! i"
      unfolding D using True lP by (simp add: nth_append)
    finally have "bs' @ [a, b] = K \<longleftrightarrow> c = EncodeToString K ! i"
      unfolding K by simp
    moreover have "length (bs' @ [a, b]) = 32" using bs'(1) by simp
    ultimately show ?thesis
      unfolding upd using d by blast
  next
    case False
    with i have i': "i = 40 \<or> i = 41" by arith
    obtain d where d: "decodeMap c = Some d"
      using decodeMap_Some[OF c] by blast
    then have dlt: "d < 64" by (simp add: decodeMap_Some_iff)
    let ?e0 = "v div 2 ^ 18 mod 64" and ?e1 = "v div 2 ^ 12 mod 64" and ?e2 = "v div 2 ^ 6 mod 64"
    have e: "?e0 < 64" "?e1 < 64" "?e2 < 64" by simp_all
    have q: "quantum_bytes [?e0, ?e1, ?e2] = [a, b]"
      unfolding v_def by (rule quantum3)
    obtain bs where bs: "length bs = 3 * 10"
      and dec: "\<And>si R. decode_from si [] (P @ R) =
              (case decode_from (si + 4 * 10) [] R of Inl e \<Rightarrow> Inl e | Inr x \<Rightarrow> Inr (bs @ x))"
      using decode_full[OF lP sP] by blast
    have "decode_from 0 [] (P @ []) = Inr K30" using decP by simp
    then have bsK: "bs = K30" unfolding dec by simp
    from i' show ?thesis
    proof
      assume i40: "i = 40"
      have upd: "(EncodeToString K)[i := c] = P @ [c, enc6 v 12, enc6 v 6]"
        unfolding D R_def i40 using lP by (simp add: list_update_append)
      have dd: "DecodeString (P @ [c, enc6 v 12, enc6 v 6])
                  = Inr (K30 @ quantum_bytes [d, ?e1, ?e2])"
        unfolding DecodeString_def dec bsK
        by (simp only: decode3[OF d decodeMap_enc6 decodeMap_enc6] sum.case)
      have l2: "length (quantum_bytes [d, ?e1, ?e2]) = 2" unfolding quantum_bytes3 by simp
      have "quantum_bytes [d, ?e1, ?e2] = [a, b] \<longleftrightarrow> d = ?e0"
        using quantum3_val_eq[OF dlt e(2,3) e(1,2)] q by metis
      also have "\<dots> \<longleftrightarrow> c = enc6 v 18"
        using d decodeMap_enc6[of v 18] decodeMap_inj by (metis option.inject)
      also have "enc6 v 18 = EncodeToString K ! i"
        unfolding D R_def i40 using lP by (simp add: nth_append)
      finally have "K30 @ quantum_bytes [d, ?e1, ?e2] = K \<longleftrightarrow> c = EncodeToString K ! i"
        unfolding K by simp
      moreover have "length (K30 @ quantum_bytes [d, ?e1, ?e2]) = 32" using l30 l2 by simp
      ultimately show ?thesis unfolding upd using dd by blast
    next
      assume i41: "i = 41"
      have upd: "(EncodeToString K)[i := c] = P @ [enc6 v 18, c, enc6 v 6]"
        unfolding D R_def i41 using lP by (simp add: list_update_append)
      have dd: "DecodeString (P @ [enc6 v 18, c, enc6 v 6])
                  = Inr (K30 @ quantum_bytes [?e0, d, ?e2])"
        unfolding DecodeString_def dec bsK
        by (simp only: decode3[OF decodeMap_enc6 d decodeMap_enc6] sum.case)
      have l2: "length (quantum_bytes [?e0, d, ?e2]) = 2" unfolding quantum_bytes3 by simp
      have "quantum_bytes [?e0, d, ?e2] = [a, b] \<longleftrightarrow> d = ?e1"
        using quantum3_val_eq[OF e(1) dlt e(3) e(1,2)] q by metis
      also have "\<dots> \<longleftrightarrow> c = enc6 v 12"
        using d decodeMap_enc6[of v 12] decodeMap_inj by (metis option.inject)
      also have "enc6 v 12 = EncodeToString K ! i"
        unfolding D R_def i41 using lP by (simp add: nth_append)
      finally have "K30 @ quantum_bytes [?e0, d, ?e2] = K \<longleftrightarrow> c = EncodeToString K ! i"
        unfolding K by simp
      moreover have "length (K30 @ quantum_bytes [?e0, d, ?e2]) = 32" using l30 l2 by simp
      ultimately show ?thesis unfolding upd using dd by blast
    qed
  qed
qed

subsection \<open>The key derivation at a small input\<close>

text \<open>
  An iteration count below 2 runs no further round: every count up to 1, also zero and the
  negative ones, derives the key of one iteration.
\<close>

lemma pbkdf2_Key_low_iter: "iter \<le> 1 \<Longrightarrow> pbkdf2_Key p s iter n = pbkdf2_Key p s 1 n"
proof -
  assume "iter \<le> 1"
  then have "pbkdf2_block p s iter = pbkdf2_block p s 1"
    by (intro ext) (simp add: pbkdf2_block_def)
  then show ?thesis
    by (simp only: pbkdf2_Key_def)
qed

text \<open>
  PBKDF2-HMAC-SHA256 of the password \<^verbatim>\<open>x\<close> with the one-byte salt \<^verbatim>\<open>00\<close>, one
  iteration and a key length of one byte, evaluated with the equations of the model.  The
  HMAC hashes two messages of two blocks each; every block is evaluated on its own, from
  the state the block before it has left.
\<close>

lemma x_key_pads:
  "map (\<lambda>b. b XOR 0x36) ([0x78 :: byte] @ replicate (64 - length [0x78 :: byte]) 0) =
     [78, 54, 54, 54, 54, 54, 54, 54, 54, 54, 54, 54, 54, 54, 54, 54, 54, 54, 54, 54, 54,
       54, 54, 54, 54, 54, 54, 54, 54, 54, 54, 54, 54, 54, 54, 54, 54, 54, 54, 54, 54, 54,
       54, 54, 54, 54, 54, 54, 54, 54, 54, 54, 54, 54, 54, 54, 54, 54, 54, 54, 54, 54, 54,
       54]"
  "map (\<lambda>b. b XOR 0x5c) ([0x78 :: byte] @ replicate (64 - length [0x78 :: byte]) 0) =
     [36, 92, 92, 92, 92, 92, 92, 92, 92, 92, 92, 92, 92, 92, 92, 92, 92, 92, 92, 92, 92,
       92, 92, 92, 92, 92, 92, 92, 92, 92, 92, 92, 92, 92, 92, 92, 92, 92, 92, 92, 92, 92,
       92, 92, 92, 92, 92, 92, 92, 92, 92, 92, 92, 92, 92, 92, 92, 92, 92, 92, 92, 92, 92,
       92]"
  by code_simp+

lemma x_inner_blocks:
  "chunks 64 (sha256_pad
     ([78, 54, 54, 54, 54, 54, 54, 54, 54, 54, 54, 54, 54, 54, 54, 54, 54, 54, 54, 54, 54,
       54, 54, 54, 54, 54, 54, 54, 54, 54, 54, 54, 54, 54, 54, 54, 54, 54, 54, 54, 54, 54,
       54, 54, 54, 54, 54, 54, 54, 54, 54, 54, 54, 54, 54, 54, 54, 54, 54, 54, 54, 54, 54,
       54]
      @ [0, 0, 0, 0, 1])) =
     [[78, 54, 54, 54, 54, 54, 54, 54, 54, 54, 54, 54, 54, 54, 54, 54, 54, 54, 54, 54, 54,
       54, 54, 54, 54, 54, 54, 54, 54, 54, 54, 54, 54, 54, 54, 54, 54, 54, 54, 54, 54, 54,
       54, 54, 54, 54, 54, 54, 54, 54, 54, 54, 54, 54, 54, 54, 54, 54, 54, 54, 54, 54, 54,
       54],
      [0, 0, 0, 0, 1, 128, 0, 0, 0, 0, 0, 0, 0, 0, 0, 0, 0, 0, 0, 0, 0, 0, 0, 0, 0, 0, 0,
       0, 0, 0, 0, 0, 0, 0, 0, 0, 0, 0, 0, 0, 0, 0, 0, 0, 0, 0, 0, 0, 0, 0, 0, 0, 0, 0, 0,
       0, 0, 0, 0, 0, 0, 0, 2, 40]]"
  by code_simp

lemma x_inner_block1:
  "sha256_block sha256_init
     [78, 54, 54, 54, 54, 54, 54, 54, 54, 54, 54, 54, 54, 54, 54, 54, 54, 54, 54, 54, 54,
       54, 54, 54, 54, 54, 54, 54, 54, 54, 54, 54, 54, 54, 54, 54, 54, 54, 54, 54, 54, 54,
       54, 54, 54, 54, 54, 54, 54, 54, 54, 54, 54, 54, 54, 54, 54, 54, 54, 54, 54, 54, 54,
       54] =
     (347169198, 573455530, 715429741, 413262700, 2861505904, 1098793458, 1595435983,
       2110135651)"
  by code_simp

lemma x_inner_block2:
  "sha256_block
     (347169198, 573455530, 715429741, 413262700, 2861505904, 1098793458, 1595435983,
       2110135651)
     [0, 0, 0, 0, 1, 128, 0, 0, 0, 0, 0, 0, 0, 0, 0, 0, 0, 0, 0, 0, 0, 0, 0, 0, 0, 0, 0,
       0, 0, 0, 0, 0, 0, 0, 0, 0, 0, 0, 0, 0, 0, 0, 0, 0, 0, 0, 0, 0, 0, 0, 0, 0, 0, 0, 0,
       0, 0, 0, 0, 0, 0, 0, 2, 40] =
     (108780484, 2836578255, 1333261871, 2534961578, 2872794268, 742102761, 196211065,
       3946552247)"
  by code_simp

lemma x_inner_digest:
  "sha256_digest
     (108780484, 2836578255, 1333261871, 2534961578, 2872794268, 742102761, 196211065,
       3946552247) =
     [6, 123, 219, 196, 169, 18, 191, 207, 79, 119, 246, 47, 151, 24, 113, 170, 171, 59,
       92, 156, 44, 59, 150, 233, 11, 177, 241, 121, 235, 59, 155, 183]"
  by code_simp

lemma x_outer_blocks:
  "chunks 64 (sha256_pad
     ([36, 92, 92, 92, 92, 92, 92, 92, 92, 92, 92, 92, 92, 92, 92, 92, 92, 92, 92, 92, 92,
       92, 92, 92, 92, 92, 92, 92, 92, 92, 92, 92, 92, 92, 92, 92, 92, 92, 92, 92, 92, 92,
       92, 92, 92, 92, 92, 92, 92, 92, 92, 92, 92, 92, 92, 92, 92, 92, 92, 92, 92, 92, 92,
       92]
      @ [6, 123, 219, 196, 169, 18, 191, 207, 79, 119, 246, 47, 151, 24, 113, 170, 171, 59,
       92, 156, 44, 59, 150, 233, 11, 177, 241, 121, 235, 59, 155, 183])) =
     [[36, 92, 92, 92, 92, 92, 92, 92, 92, 92, 92, 92, 92, 92, 92, 92, 92, 92, 92, 92, 92,
       92, 92, 92, 92, 92, 92, 92, 92, 92, 92, 92, 92, 92, 92, 92, 92, 92, 92, 92, 92, 92,
       92, 92, 92, 92, 92, 92, 92, 92, 92, 92, 92, 92, 92, 92, 92, 92, 92, 92, 92, 92, 92,
       92],
      [6, 123, 219, 196, 169, 18, 191, 207, 79, 119, 246, 47, 151, 24, 113, 170, 171, 59,
       92, 156, 44, 59, 150, 233, 11, 177, 241, 121, 235, 59, 155, 183, 128, 0, 0, 0, 0, 0,
       0, 0, 0, 0, 0, 0, 0, 0, 0, 0, 0, 0, 0, 0, 0, 0, 0, 0, 0, 0, 0, 0, 0, 0, 3, 0]]"
  by code_simp

lemma x_outer_block1:
  "sha256_block sha256_init
     [36, 92, 92, 92, 92, 92, 92, 92, 92, 92, 92, 92, 92, 92, 92, 92, 92, 92, 92, 92, 92,
       92, 92, 92, 92, 92, 92, 92, 92, 92, 92, 92, 92, 92, 92, 92, 92, 92, 92, 92, 92, 92,
       92, 92, 92, 92, 92, 92, 92, 92, 92, 92, 92, 92, 92, 92, 92, 92, 92, 92, 92, 92, 92,
       92] =
     (1009421160, 559777052, 2058489840, 2561633796, 590150724, 2834601878, 3843014813,
       1123114719)"
  by code_simp

lemma x_outer_block2:
  "sha256_block
     (1009421160, 559777052, 2058489840, 2561633796, 590150724, 2834601878, 3843014813,
       1123114719)
     [6, 123, 219, 196, 169, 18, 191, 207, 79, 119, 246, 47, 151, 24, 113, 170, 171, 59,
       92, 156, 44, 59, 150, 233, 11, 177, 241, 121, 235, 59, 155, 183, 128, 0, 0, 0, 0, 0,
       0, 0, 0, 0, 0, 0, 0, 0, 0, 0, 0, 0, 0, 0, 0, 0, 0, 0, 0, 0, 0, 0, 0, 0, 3, 0] =
     (282132668, 2799446824, 1770738587, 860645997, 4130582435, 776733876, 2331184477,
       393335990)"
  by code_simp

lemma x_outer_digest:
  "sha256_digest
     (282132668, 2799446824, 1770738587, 860645997, 4130582435, 776733876, 2331184477,
       393335990) =
     [16, 209, 0, 188, 166, 220, 43, 40, 105, 139, 83, 155, 51, 76, 106, 109, 246, 51,
       175, 163, 46, 76, 4, 180, 138, 243, 13, 93, 23, 113, 212, 182]"
  by code_simp

lemma x_inner:
  "sha256_Sum
     ([78, 54, 54, 54, 54, 54, 54, 54, 54, 54, 54, 54, 54, 54, 54, 54, 54, 54, 54, 54, 54,
       54, 54, 54, 54, 54, 54, 54, 54, 54, 54, 54, 54, 54, 54, 54, 54, 54, 54, 54, 54, 54,
       54, 54, 54, 54, 54, 54, 54, 54, 54, 54, 54, 54, 54, 54, 54, 54, 54, 54, 54, 54, 54,
       54]
      @ [0, 0, 0, 0, 1]) =
     [6, 123, 219, 196, 169, 18, 191, 207, 79, 119, 246, 47, 151, 24, 113, 170, 171, 59,
       92, 156, 44, 59, 150, 233, 11, 177, 241, 121, 235, 59, 155, 183]"
  by (simp only: sha256_Sum_def x_inner_blocks foldl_Cons foldl_Nil x_inner_block1 x_inner_block2
        x_inner_digest)

lemma x_outer:
  "sha256_Sum
     ([36, 92, 92, 92, 92, 92, 92, 92, 92, 92, 92, 92, 92, 92, 92, 92, 92, 92, 92, 92, 92,
       92, 92, 92, 92, 92, 92, 92, 92, 92, 92, 92, 92, 92, 92, 92, 92, 92, 92, 92, 92, 92,
       92, 92, 92, 92, 92, 92, 92, 92, 92, 92, 92, 92, 92, 92, 92, 92, 92, 92, 92, 92, 92,
       92]
      @ [6, 123, 219, 196, 169, 18, 191, 207, 79, 119, 246, 47, 151, 24, 113, 170, 171, 59,
       92, 156, 44, 59, 150, 233, 11, 177, 241, 121, 235, 59, 155, 183]) =
     [16, 209, 0, 188, 166, 220, 43, 40, 105, 139, 83, 155, 51, 76, 106, 109, 246, 51,
       175, 163, 46, 76, 4, 180, 138, 243, 13, 93, 23, 113, 212, 182]"
  by (simp only: sha256_Sum_def x_outer_blocks foldl_Cons foldl_Nil x_outer_block1 x_outer_block2
        x_outer_digest)

lemma x_hmac:
  "hmac_sha256 [0x78] [0, 0, 0, 0, 1] =
     [16, 209, 0, 188, 166, 220, 43, 40, 105, 139, 83, 155, 51, 76, 106, 109, 246, 51,
       175, 163, 46, 76, 4, 180, 138, 243, 13, 93, 23, 113, 212, 182]"
proof -
  have k: "(if length [0x78 :: byte] > 64 then sha256_Sum [0x78] else [0x78]) = [0x78]"
    by simp
  show ?thesis
    unfolding hmac_sha256_def Let_def k x_key_pads x_inner x_outer ..
qed

lemma x_be32: "be32_bytes 1 = [0, 0, 0, 1]"
  by code_simp

lemma pbkdf2_Key_x: "pbkdf2_Key [0x78] [0] 1 1 = [16]"
proof -
  have "pbkdf2_block [0x78] [0] 1 1 = hmac_sha256 [0x78] [0, 0, 0, 0, 1]"
    by (simp add: pbkdf2_block_def Let_def x_be32)
  then show ?thesis
    by (simp add: pbkdf2_Key_def x_hmac)
qed

lemma bytes_of_string_x: "bytes_of_string ''x'' = [0x78]"
  by (simp add: bytes_of_string_def)

section \<open>Properties of \<^verbatim>\<open>HashPassword\<close> and \<^verbatim>\<open>CheckPasswordHash\<close>\<close>

subsection \<open>The encoded hash and its verification\<close>

lemma HashPassword_encoded:
  assumes "password \<noteq> []" and "passwordSaltBytes \<le> length rng"
  shows "HashPassword password rng =
           ((''pbkdf2-sha256:1000000:'' @ EncodeToString (take 16 rng) @ '':''
               @ EncodeToString (pbkdf2_Key (bytes_of_string password) (take 16 rng) 1000000 32),
             None), drop 16 rng)"
  using assms
  by (simp add: HashPassword_def rand_Read_def passwordSaltBytes_def passwordHashBytes_def
        passwordIterations_def passwordAlgorithmKey_def fmt_d_iterations Let_def)

lemma strings_Split_encoded:
  assumes "CHR '':'' \<notin> set s" and "CHR '':'' \<notin> set d"
  shows "strings_Split (''pbkdf2-sha256:1000000:'' @ s @ '':'' @ d) (CHR '':'')
           = [''pbkdf2-sha256'', ''1000000'', s, d]"
proof -
  have "strings_Split (''pbkdf2-sha256'' @ CHR '':'' # ''1000000'' @ CHR '':'' # s @ CHR '':'' # d)
          (CHR '':'') = [''pbkdf2-sha256'', ''1000000'', s, d]"
    by (rule strings_Split_four) (use assms in simp_all)
  then show ?thesis by simp
qed

lemma CheckPasswordHash_parsed:
  assumes "password \<noteq> []"
    and "strings_Split storedHash (CHR '':'') = [passwordAlgorithmKey, its, s64, d64]"
    and "parseInt its = (n, None)"
    and "DecodeString s64 = Inr salt"
    and "DecodeString d64 = Inr hash"
  shows "CheckPasswordHash password storedHash =
           (hash = pbkdf2_Key (bytes_of_string password) salt n (length hash), None)"
proof -
  have "storedHash \<noteq> []" using assms(2) by auto
  then show ?thesis
    using assms by (simp add: CheckPasswordHash_def ConstantTimeCompare_eq)
qed

lemma CheckPasswordHash_encoded:
  assumes "password \<noteq> []"
  shows "CheckPasswordHash password
           (''pbkdf2-sha256:1000000:'' @ EncodeToString salt @ '':''
              @ EncodeToString (pbkdf2_Key (bytes_of_string password) salt 1000000 32))
         = (True, None)"
proof -
  let ?key = "pbkdf2_Key (bytes_of_string password) salt 1000000 32"
  have "CheckPasswordHash password
          (''pbkdf2-sha256:1000000:'' @ EncodeToString salt @ '':'' @ EncodeToString ?key)
        = (?key = pbkdf2_Key (bytes_of_string password) salt 1000000 (length ?key), None)"
    by (rule CheckPasswordHash_parsed[OF assms _ parseInt_iterations
          DecodeString_EncodeToString DecodeString_EncodeToString])
       (simp only: passwordAlgorithmKey_def
          strings_Split_encoded[OF colon_not_in_EncodeToString colon_not_in_EncodeToString])
  then show ?thesis by (simp only: length_pbkdf2_Key simp_thms)
qed

lemma pbkdf2_Key_x_one: "pbkdf2_Key (bytes_of_string ''x'') [0] 1 1 = [16]"
  by (simp only: bytes_of_string_x pbkdf2_Key_x)

lemma CheckPasswordHash_x:
  assumes "parseInt its = (n, None)" and "n \<le> 1"
    and "DecodeString d64 = Inr [b]"
    and "CHR '':'' \<notin> set its" and "CHR '':'' \<notin> set d64"
  shows "CheckPasswordHash ''x'' (''pbkdf2-sha256:'' @ its @ '':AA:'' @ d64) = (b = 16, None)"
proof -
  have "strings_Split (''pbkdf2-sha256'' @ CHR '':'' # its @ CHR '':'' # ''AA'' @ CHR '':'' # d64)
          (CHR '':'') = [''pbkdf2-sha256'', its, ''AA'', d64]"
    by (rule strings_Split_four) (use assms(4,5) in simp_all)
  then have s: "strings_Split (''pbkdf2-sha256:'' @ its @ '':AA:'' @ d64) (CHR '':'')
                  = [passwordAlgorithmKey, its, ''AA'', d64]"
    by (simp add: passwordAlgorithmKey_def)
  have k: "pbkdf2_Key (bytes_of_string ''x'') [0] n 1 = [16]"
    using pbkdf2_Key_low_iter[OF assms(2), of "bytes_of_string ''x''" "[0]" 1] pbkdf2_Key_x_one
    by simp
  have "CheckPasswordHash ''x'' (''pbkdf2-sha256:'' @ its @ '':AA:'' @ d64)
          = ([b] = pbkdf2_Key (bytes_of_string ''x'') [0] n (length [b]), None)"
    by (rule CheckPasswordHash_parsed[OF _ s assms(1) DecodeString_AA assms(3)]) simp
  then show ?thesis using k by simp
qed

text \<open>
  Verification of an encoded hash in which the character at one of the first 42 positions
  of the digest is replaced by a character of the alphabet succeeds exactly when the
  character is the one that was there.
\<close>

lemma CheckPasswordHash_replaced_digest_char:
  assumes "password \<noteq> []" and "passwordSaltBytes \<le> length rng"
    and "i < 42" and "c \<in> set encodeStd"
  defines "h \<equiv> fst (fst (HashPassword password rng))"
  shows "CheckPasswordHash password (h[length h - 43 + i := c])
           = (c = h ! (length h - 43 + i), None)"
proof -
  define S where "S = EncodeToString (take 16 rng)"
  define K where "K = pbkdf2_Key (bytes_of_string password) (take 16 rng) 1000000 32"
  define D where "D = EncodeToString K"
  define pre where "pre = ''pbkdf2-sha256:1000000:'' @ S @ '':''"
  have lK: "length K = 32" unfolding K_def by (rule length_pbkdf2_Key)
  have lD: "length D = 43" unfolding D_def by (simp add: length_EncodeToString lK)
  have h: "h = pre @ D"
    unfolding h_def pre_def S_def D_def K_def
    by (simp only: HashPassword_encoded[OF assms(1,2)] fst_conv append_assoc)
  have lh: "length h - 43 = length pre" unfolding h using lD by simp
  have upd: "h[length h - 43 + i := c] = ''pbkdf2-sha256:1000000:'' @ S @ '':'' @ D[i := c]"
    unfolding lh unfolding h pre_def by (simp add: list_update_append)
  have nth: "h ! (length h - 43 + i) = D ! i"
    unfolding lh unfolding h by simp
  from tampered_digest_decodes[OF lK assms(3,4)] obtain K' where
    K': "DecodeString (D[i := c]) = Inr K'" "length K' = 32" "K' = K \<longleftrightarrow> c = D ! i"
    unfolding D_def by blast
  have "set (D[i := c]) \<subseteq> insert c (set D)" by (rule set_update_subset_insert)
  then have "set (D[i := c]) \<subseteq> set encodeStd"
    using assms(4) set_EncodeToString[of K] unfolding D_def by blast
  then have colD: "CHR '':'' \<notin> set (D[i := c])" using colon_not_in_alphabet by blast
  have colS: "CHR '':'' \<notin> set S" unfolding S_def by (rule colon_not_in_EncodeToString)
  have sp: "strings_Split (''pbkdf2-sha256:1000000:'' @ S @ '':'' @ D[i := c]) (CHR '':'')
              = [passwordAlgorithmKey, ''1000000'', S, D[i := c]]"
    unfolding passwordAlgorithmKey_def by (rule strings_Split_encoded[OF colS colD])
  have decS: "DecodeString S = Inr (take 16 rng)"
    unfolding S_def by (rule DecodeString_EncodeToString)
  have "CheckPasswordHash password (''pbkdf2-sha256:1000000:'' @ S @ '':'' @ D[i := c])
          = (K' = pbkdf2_Key (bytes_of_string password) (take 16 rng) 1000000 (length K'), None)"
    by (rule CheckPasswordHash_parsed[OF assms(1) sp parseInt_iterations decS K'(1)])
  then show ?thesis
    unfolding upd nth K'(2) K_def[symmetric] K'(3) .
qed

section \<open>The claims\<close>

text \<open>
  Claim C1.  For every non-empty password, whatever sixteen bytes the random source
  delivers as the salt, \<^verbatim>\<open>HashPassword\<close> returns no error, and \<^verbatim>\<open>CheckPasswordHash\<close> of
  the same password and the encoded hash it returned is \<^verbatim>\<open>(true, nil)\<close>.
\<close>

theorem CheckPasswordHash_of_HashPassword:
  assumes "password \<noteq> []" and "passwordSaltBytes \<le> length rng"
  shows "snd (fst (HashPassword password rng)) = None \<and>
         CheckPasswordHash password (fst (fst (HashPassword password rng))) = (True, None)"
  by (simp only: HashPassword_encoded[OF assms] CheckPasswordHash_encoded[OF assms(1)]
        fst_conv snd_conv simp_thms)

theorem CheckPasswordHash_of_HashPassword_witness:
  "''correcthorse'' \<noteq> [] \<and>
   passwordSaltBytes \<le> length [1, 2, 3, 4, 5, 6, 7, 8, 9, 10, 11, 12, 13, 14, 15, 16 :: byte] \<and>
   snd (fst (HashPassword ''correcthorse''
              [1, 2, 3, 4, 5, 6, 7, 8, 9, 10, 11, 12, 13, 14, 15, 16])) = None \<and>
   CheckPasswordHash ''correcthorse''
     (fst (fst (HashPassword ''correcthorse''
                 [1, 2, 3, 4, 5, 6, 7, 8, 9, 10, 11, 12, 13, 14, 15, 16]))) = (True, None)"
  using CheckPasswordHash_of_HashPassword
          [of "''correcthorse''" "[1, 2, 3, 4, 5, 6, 7, 8, 9, 10, 11, 12, 13, 14, 15, 16]"]
  by (simp add: passwordSaltBytes_def)

text \<open>
  Claim C2, as the code has it.  When the first field is the supported algorithm and
  \<^verbatim>\<open>parseInt\<close> fails on the second field, \<^verbatim>\<open>CheckPasswordHash\<close> returns an error before any
  key is derived: the wrapped scan error when there are four fields, and the format error
  for any other number of fields.  An iteration count that scans to zero or to a negative
  number is not rejected: when the salt and the digest decode, the key is derived as with
  one iteration, and the result is the comparison with a nil error.
\<close>

theorem CheckPasswordHash_bad_iterations:
  assumes "password \<noteq> []"
  shows "(2 \<le> length (strings_Split storedHash (CHR '':'')) \<and>
          strings_Split storedHash (CHR '':'') ! 0 = passwordAlgorithmKey \<and>
          parseInt (strings_Split storedHash (CHR '':'') ! 1) = (n, Some err)
          \<longrightarrow> CheckPasswordHash password storedHash =
                (False, Some (if length (strings_Split storedHash (CHR '':'')) = 4
                              then ErrParseIterations err else ErrInvalidHashFormat))) \<and>
         (strings_Split storedHash (CHR '':'') = [passwordAlgorithmKey, its, s64, d64] \<and>
          parseInt its = (m, None) \<and> m \<le> 0 \<and>
          DecodeString s64 = Inr salt \<and> DecodeString d64 = Inr hash
          \<longrightarrow> CheckPasswordHash password storedHash =
                (hash = pbkdf2_Key (bytes_of_string password) salt 1 (length hash), None))"
proof (intro conjI impI)
  assume a: "2 \<le> length (strings_Split storedHash (CHR '':'')) \<and>
          strings_Split storedHash (CHR '':'') ! 0 = passwordAlgorithmKey \<and>
          parseInt (strings_Split storedHash (CHR '':'') ! 1) = (n, Some err)"
  then have "storedHash \<noteq> []" by auto
  then show "CheckPasswordHash password storedHash =
                (False, Some (if length (strings_Split storedHash (CHR '':'')) = 4
                              then ErrParseIterations err else ErrInvalidHashFormat))"
    using assms a by (simp add: CheckPasswordHash_def)
next
  assume a: "strings_Split storedHash (CHR '':'') = [passwordAlgorithmKey, its, s64, d64] \<and>
          parseInt its = (m, None) \<and> m \<le> 0 \<and>
          DecodeString s64 = Inr salt \<and> DecodeString d64 = Inr hash"
  then have "m \<le> 1" by simp
  then have "pbkdf2_Key (bytes_of_string password) salt m (length hash)
               = pbkdf2_Key (bytes_of_string password) salt 1 (length hash)"
    by (rule pbkdf2_Key_low_iter)
  moreover have "CheckPasswordHash password storedHash =
           (hash = pbkdf2_Key (bytes_of_string password) salt m (length hash), None)"
    using CheckPasswordHash_parsed[OF assms] a by blast
  ultimately show "CheckPasswordHash password storedHash =
                (hash = pbkdf2_Key (bytes_of_string password) salt 1 (length hash), None)"
    by simp
qed

theorem CheckPasswordHash_bad_iterations_witness:
  "''x'' \<noteq> [] \<and>
   2 \<le> length (strings_Split ''pbkdf2-sha256:abc:AA:BB'' (CHR '':'')) \<and>
   strings_Split ''pbkdf2-sha256:abc:AA:BB'' (CHR '':'') ! 0 = passwordAlgorithmKey \<and>
   parseInt (strings_Split ''pbkdf2-sha256:abc:AA:BB'' (CHR '':'') ! 1)
     = (0, Some ScanExpectedInteger) \<and>
   CheckPasswordHash ''x'' ''pbkdf2-sha256:abc:AA:BB''
     = (False, Some (ErrParseIterations ScanExpectedInteger)) \<and>
   strings_Split ''pbkdf2-sha256:0:AA:BB'' (CHR '':'') = [passwordAlgorithmKey, ''0'', ''AA'', ''BB''] \<and>
   parseInt ''0'' = (0, None) \<and> (0 :: int) \<le> 0 \<and>
   DecodeString ''AA'' = Inr [0] \<and> DecodeString ''BB'' = Inr [4] \<and>
   CheckPasswordHash ''x'' ''pbkdf2-sha256:0:AA:BB''
     = ([4] = pbkdf2_Key (bytes_of_string ''x'') [0] 1 (length [4 :: byte]), None)"
proof -
  have p: "''x'' \<noteq> []" by simp
  have s1: "strings_Split ''pbkdf2-sha256:abc:AA:BB'' (CHR '':'')
              = [passwordAlgorithmKey, ''abc'', ''AA'', ''BB'']"
    by (simp add: passwordAlgorithmKey_def)
  have s2: "strings_Split ''pbkdf2-sha256:0:AA:BB'' (CHR '':'')
              = [passwordAlgorithmKey, ''0'', ''AA'', ''BB'']"
    by (simp add: passwordAlgorithmKey_def)
  note t = CheckPasswordHash_bad_iterations[OF p,
      where storedHash = "''pbkdf2-sha256:abc:AA:BB''" and n = 0 and err = ScanExpectedInteger]
  note u = CheckPasswordHash_bad_iterations[OF p,
      where storedHash = "''pbkdf2-sha256:0:AA:BB''" and its = "''0''" and ?s64.0 = "''AA''"
        and ?d64.0 = "''BB''" and m = 0 and salt = "[0]" and hash = "[4]"]
  have a: "CheckPasswordHash ''x'' ''pbkdf2-sha256:abc:AA:BB''
             = (False, Some (ErrParseIterations ScanExpectedInteger))"
    using t s1 parseInt_abc by simp
  have b: "CheckPasswordHash ''x'' ''pbkdf2-sha256:0:AA:BB''
             = ([4] = pbkdf2_Key (bytes_of_string ''x'') [0] 1 (length [4 :: byte]), None)"
    using u s2 parseInt_zero DecodeString_AA DecodeString_BB by simp
  show ?thesis
    using a b s1 s2 parseInt_abc parseInt_zero DecodeString_AA DecodeString_BB by simp
qed

text \<open>
  Claim C2 as stated also promises an error for an iteration count that scans to a
  non-positive number.  The code has no such check: the count \<^verbatim>\<open>0\<close> scans without an
  error, the key is derived as for one iteration, and the password \<^verbatim>\<open>x\<close> verifies against
  the digest \<^verbatim>\<open>EA\<close> and is told apart from the digest \<^verbatim>\<open>BB\<close> without any error.
\<close>

theorem CheckPasswordHash_zero_iterations:
  "strings_Split ''pbkdf2-sha256:0:AA:EA'' (CHR '':'')
     = [passwordAlgorithmKey, ''0'', ''AA'', ''EA''] \<and>
   parseInt ''0'' = (0, None) \<and>
   CheckPasswordHash ''x'' ''pbkdf2-sha256:0:AA:EA'' = (True, None) \<and>
   CheckPasswordHash ''x'' ''pbkdf2-sha256:0:AA:BB'' = (False, None)"
  using CheckPasswordHash_x[OF parseInt_zero _ DecodeString_EA]
        CheckPasswordHash_x[OF parseInt_zero _ DecodeString_BB]
  by (simp add: parseInt_zero passwordAlgorithmKey_def)

text \<open>
  Claim C3, as the code has it.  When the stored hash has the four fields, the supported
  algorithm, an iteration count that scans and a salt and a digest that decode, and the
  decoded digest differs from the key derived again for its length, the result is
  \<^verbatim>\<open>(false, nil)\<close>.  In particular, when one of the first 42 characters of the digest
  of a hash returned by \<^verbatim>\<open>HashPassword\<close> is replaced by a character of the base64
  alphabet, verification of the same password returns a nil error and \<^verbatim>\<open>true\<close> only if the
  character is the one that was there: every other character of the alphabet gives
  \<^verbatim>\<open>(false, nil)\<close>.
\<close>

theorem CheckPasswordHash_mismatch:
  assumes "password \<noteq> []"
  shows "(strings_Split storedHash (CHR '':'') = [passwordAlgorithmKey, its, s64, d64] \<and>
          parseInt its = (n, None) \<and> DecodeString s64 = Inr salt \<and> DecodeString d64 = Inr hash \<and>
          hash \<noteq> pbkdf2_Key (bytes_of_string password) salt n (length hash)
          \<longrightarrow> CheckPasswordHash password storedHash = (False, None)) \<and>
         (passwordSaltBytes \<le> length rng \<and> i < 42 \<and> c \<in> set encodeStd
          \<longrightarrow> CheckPasswordHash password
                ((fst (fst (HashPassword password rng)))
                   [length (fst (fst (HashPassword password rng))) - 43 + i := c])
              = (c = fst (fst (HashPassword password rng))
                       ! (length (fst (fst (HashPassword password rng))) - 43 + i), None))"
proof (intro conjI impI)
  assume a: "strings_Split storedHash (CHR '':'') = [passwordAlgorithmKey, its, s64, d64] \<and>
          parseInt its = (n, None) \<and> DecodeString s64 = Inr salt \<and> DecodeString d64 = Inr hash \<and>
          hash \<noteq> pbkdf2_Key (bytes_of_string password) salt n (length hash)"
  then have "CheckPasswordHash password storedHash =
           (hash = pbkdf2_Key (bytes_of_string password) salt n (length hash), None)"
    using CheckPasswordHash_parsed[OF assms] by blast
  then show "CheckPasswordHash password storedHash = (False, None)" using a by simp
next
  assume "passwordSaltBytes \<le> length rng \<and> i < 42 \<and> c \<in> set encodeStd"
  then show "CheckPasswordHash password
                ((fst (fst (HashPassword password rng)))
                   [length (fst (fst (HashPassword password rng))) - 43 + i := c])
              = (c = fst (fst (HashPassword password rng))
                       ! (length (fst (fst (HashPassword password rng))) - 43 + i), None)"
    using CheckPasswordHash_replaced_digest_char[OF assms] by blast
qed

theorem CheckPasswordHash_mismatch_witness:
  "''x'' \<noteq> [] \<and>
   strings_Split ''pbkdf2-sha256:1:AA:BB'' (CHR '':'') = [passwordAlgorithmKey, ''1'', ''AA'', ''BB''] \<and>
   parseInt ''1'' = (1, None) \<and> DecodeString ''AA'' = Inr [0] \<and> DecodeString ''BB'' = Inr [4] \<and>
   [4] \<noteq> pbkdf2_Key (bytes_of_string ''x'') [0] 1 (length [4 :: byte]) \<and>
   CheckPasswordHash ''x'' ''pbkdf2-sha256:1:AA:BB'' = (False, None) \<and>
   passwordSaltBytes \<le> length (replicate 16 (0 :: byte)) \<and> (0 :: nat) < 42 \<and>
   CHR ''A'' \<in> set encodeStd \<and>
   CheckPasswordHash ''x''
     ((fst (fst (HashPassword ''x'' (replicate 16 0))))
        [length (fst (fst (HashPassword ''x'' (replicate 16 0)))) - 43 + 0 := CHR ''A''])
   = (CHR ''A'' = fst (fst (HashPassword ''x'' (replicate 16 0)))
                    ! (length (fst (fst (HashPassword ''x'' (replicate 16 0)))) - 43 + 0), None)"
proof -
  have p: "''x'' \<noteq> []" by simp
  have s: "strings_Split ''pbkdf2-sha256:1:AA:BB'' (CHR '':'')
             = [passwordAlgorithmKey, ''1'', ''AA'', ''BB'']"
    by (simp add: passwordAlgorithmKey_def)
  have k: "[4] \<noteq> pbkdf2_Key (bytes_of_string ''x'') [0] 1 (length [4 :: byte])"
    using pbkdf2_Key_x_one by simp
  have r: "passwordSaltBytes \<le> length (replicate 16 (0 :: byte))"
    by (simp add: passwordSaltBytes_def)
  have i: "(0 :: nat) < 42" by simp
  have c: "CHR ''A'' \<in> set encodeStd" by (simp add: encodeStd_def)
  note t = CheckPasswordHash_mismatch[OF p,
      of "''pbkdf2-sha256:1:AA:BB''" "''1''" "''AA''" "''BB''" 1 "[0]" "[4]"
         "replicate 16 0" 0 "CHR ''A''"]
  show ?thesis
    using p s parseInt_one DecodeString_AA DecodeString_BB k r i c t by blast
qed

text \<open>
  Claim C3 as stated also says that changing one character of the digest portion of a
  valid encoded hash gives \<^verbatim>\<open>false\<close> with a nil error.  A character outside the base64
  alphabet gives the decode error instead: so for the hash that \<^verbatim>\<open>HashPassword\<close> returns
  for the password \<^verbatim>\<open>x\<close> and a salt of sixteen zero bytes, with its last character
  replaced by \<^verbatim>\<open>!\<close>, and so for the short hash \<^verbatim>\<open>pbkdf2-sha256:1:AA:EA\<close>, which verifies
  the password \<^verbatim>\<open>x\<close>.  A change in the unused low bits of the last character leaves the
  digest as it was: \<^verbatim>\<open>EB\<close> for \<^verbatim>\<open>EA\<close> still verifies.
\<close>

theorem CheckPasswordHash_tampered_digest:
  "CheckPasswordHash ''x''
     ((fst (fst (HashPassword ''x'' (replicate 16 0))))
        [length (fst (fst (HashPassword ''x'' (replicate 16 0)))) - 1 := CHR ''!''])
   = (False, Some (ErrDecodeHash (CorruptInputError 42))) \<and>
   CheckPasswordHash ''x'' ''pbkdf2-sha256:1:AA:EA'' = (True, None) \<and>
   CheckPasswordHash ''x'' ''pbkdf2-sha256:1:AA:E!'' = (False, Some (ErrDecodeHash (CorruptInputError 1))) \<and>
   CheckPasswordHash ''x'' ''pbkdf2-sha256:1:AA:EB'' = (True, None)"
proof -
  define S where "S = EncodeToString (take 16 (replicate 16 (0::byte)))"
  define D where
    "D = EncodeToString (pbkdf2_Key (bytes_of_string ''x'') (take 16 (replicate 16 0)) 1000000 32)"
  have h: "fst (fst (HashPassword ''x'' (replicate 16 0))) = (''pbkdf2-sha256:1000000:'' @ S @ '':'') @ D"
    unfolding S_def D_def
    by (subst HashPassword_encoded) (simp_all add: passwordSaltBytes_def)
  have lenD: "length D = 43"
    unfolding D_def by (simp add: length_EncodeToString length_pbkdf2_Key)
  then have D: "D[42 := CHR ''!''] = take 42 D @ [CHR ''!'']"
    by (simp add: list_eq_iff_nth_eq nth_list_update nth_append)
  have upd: "((''pbkdf2-sha256:1000000:'' @ S @ '':'') @ D)
               [length ((''pbkdf2-sha256:1000000:'' @ S @ '':'') @ D) - 1 := CHR ''!'']
             = ''pbkdf2-sha256:1000000:'' @ S @ '':'' @ (take 42 D @ [CHR ''!''])"
    using lenD D by (simp add: list_update_append)
  have subD: "set (take 42 D) \<subseteq> set encodeStd"
    using set_take_subset[of 42 D] set_EncodeToString unfolding D_def by blast
  have colS: "CHR '':'' \<notin> set S" unfolding S_def by (rule colon_not_in_EncodeToString)
  have colD: "CHR '':'' \<notin> set (take 42 D @ [CHR ''!''])"
    using subD colon_not_in_alphabet by auto
  have split: "strings_Split (''pbkdf2-sha256:1000000:'' @ S @ '':'' @ (take 42 D @ [CHR ''!'']))
                 (CHR '':'') = [''pbkdf2-sha256'', ''1000000'', S, take 42 D @ [CHR ''!'']]"
    by (rule strings_Split_encoded[OF colS colD])
  have decS: "DecodeString S = Inr (take 16 (replicate 16 0))"
    unfolding S_def by (rule DecodeString_EncodeToString)
  have decD: "DecodeString (take 42 D @ [CHR ''!'']) = Inl (CorruptInputError 42)"
    using DecodeString_bad_char[OF subD decodeMap_bang, of "[]"] lenD by simp
  have "CheckPasswordHash ''x'' (''pbkdf2-sha256:1000000:'' @ S @ '':'' @ (take 42 D @ [CHR ''!'']))
          = (False, Some (ErrDecodeHash (CorruptInputError 42)))"
    unfolding CheckPasswordHash_def
    by (simp only: split Let_def) (simp add: passwordAlgorithmKey_def parseInt_iterations decS decD)
  then have tampered:
    "CheckPasswordHash ''x''
       ((fst (fst (HashPassword ''x'' (replicate 16 0))))
          [length (fst (fst (HashPassword ''x'' (replicate 16 0)))) - 1 := CHR ''!''])
     = (False, Some (ErrDecodeHash (CorruptInputError 42)))"
    by (simp only: h upd)
  have bang: "CheckPasswordHash ''x'' ''pbkdf2-sha256:1:AA:E!''
                = (False, Some (ErrDecodeHash (CorruptInputError 1)))"
  proof -
    have E: "decodeMap (CHR ''E'') = Some 4"
      using decodeMap_encodeStd[of 4] by (simp add: encodeStd_def)
    have "DecodeString ''E!'' = Inl (CorruptInputError 1)"
      by (simp add: DecodeString_def E decodeMap_bang)
    then show ?thesis
      by (simp add: CheckPasswordHash_def passwordAlgorithmKey_def parseInt_one DecodeString_AA)
  qed
  show ?thesis
    using tampered bang
      CheckPasswordHash_x[OF parseInt_one _ DecodeString_EA]
      CheckPasswordHash_x[OF parseInt_one _ DecodeString_EB]
    by simp
qed

text \<open>
  Claim C5.  Two runs of \<^verbatim>\<open>HashPassword\<close> on the same non-empty password whose random
  sources deliver different sixteen-byte salts return different encoded hashes, and each
  of the two verifies against the password.
\<close>

theorem HashPassword_distinct_salts:
  assumes "password \<noteq> []"
    and "passwordSaltBytes \<le> length rng1" and "passwordSaltBytes \<le> length rng2"
    and "take passwordSaltBytes rng1 \<noteq> take passwordSaltBytes rng2"
  shows "fst (fst (HashPassword password rng1)) \<noteq> fst (fst (HashPassword password rng2)) \<and>
         CheckPasswordHash password (fst (fst (HashPassword password rng1))) = (True, None) \<and>
         CheckPasswordHash password (fst (fst (HashPassword password rng2))) = (True, None)"
proof -
  let ?h = "\<lambda>rng. ''pbkdf2-sha256:1000000:'' @ EncodeToString (take 16 rng) @ '':''
              @ EncodeToString (pbkdf2_Key (bytes_of_string password) (take 16 rng) 1000000 32)"
  have h1: "fst (fst (HashPassword password rng1)) = ?h rng1"
    by (simp only: HashPassword_encoded[OF assms(1,2)] fst_conv)
  have h2: "fst (fst (HashPassword password rng2)) = ?h rng2"
    by (simp only: HashPassword_encoded[OF assms(1,3)] fst_conv)
  have sp: "strings_Split (?h rng) (CHR '':'') ! 2 = EncodeToString (take 16 rng)" for rng
    by (simp only: strings_Split_encoded[OF colon_not_in_EncodeToString colon_not_in_EncodeToString])
       simp
  have "?h rng1 \<noteq> ?h rng2"
  proof
    assume "?h rng1 = ?h rng2"
    then have "strings_Split (?h rng1) (CHR '':'') ! 2 = strings_Split (?h rng2) (CHR '':'') ! 2"
      by (simp only:)
    then have "EncodeToString (take 16 rng1) = EncodeToString (take 16 rng2)"
      by (simp only: sp)
    then have "DecodeString (EncodeToString (take 16 rng1))
                 = DecodeString (EncodeToString (take 16 rng2))"
      by (simp only:)
    then have "take 16 rng1 = take 16 rng2"
      by (simp only: DecodeString_EncodeToString sum.inject)
    then show False using assms(4) by (simp add: passwordSaltBytes_def)
  qed
  then show ?thesis
    by (simp only: h1 h2 CheckPasswordHash_encoded[OF assms(1)] simp_thms)
qed

theorem HashPassword_distinct_salts_witness:
  "''correcthorse'' \<noteq> [] \<and>
   passwordSaltBytes \<le> length (replicate 16 (0::byte)) \<and>
   passwordSaltBytes \<le> length (replicate 16 (1::byte)) \<and>
   take passwordSaltBytes (replicate 16 (0::byte)) \<noteq> take passwordSaltBytes (replicate 16 1) \<and>
   fst (fst (HashPassword ''correcthorse'' (replicate 16 0)))
     \<noteq> fst (fst (HashPassword ''correcthorse'' (replicate 16 1))) \<and>
   CheckPasswordHash ''correcthorse'' (fst (fst (HashPassword ''correcthorse'' (replicate 16 0))))
     = (True, None) \<and>
   CheckPasswordHash ''correcthorse'' (fst (fst (HashPassword ''correcthorse'' (replicate 16 1))))
     = (True, None)"
  using HashPassword_distinct_salts[of "''correcthorse''" "replicate 16 0" "replicate 16 1"]
  by (simp add: passwordSaltBytes_def)

text \<open>
  Claim C6.  For a non-empty password and a non-empty stored hash that does not split at
  the colons into exactly four fields, \<^verbatim>\<open>CheckPasswordHash\<close> returns
  \<^verbatim>\<open>ErrInvalidHashFormat\<close>; \<^verbatim>\<open>not:a:valid\<close> is such a hash.
\<close>

theorem CheckPasswordHash_wrong_field_count:
  assumes "password \<noteq> []" and "storedHash \<noteq> []"
    and "length (strings_Split storedHash (CHR '':'')) \<noteq> 4"
  shows "CheckPasswordHash password storedHash = (False, Some ErrInvalidHashFormat)"
  using assms by (simp add: CheckPasswordHash_def)

theorem CheckPasswordHash_wrong_field_count_witness:
  "''x'' \<noteq> [] \<and> ''not:a:valid'' \<noteq> [] \<and>
   length (strings_Split ''not:a:valid'' (CHR '':'')) \<noteq> 4 \<and>
   CheckPasswordHash ''x'' ''not:a:valid'' = (False, Some ErrInvalidHashFormat)"
  using CheckPasswordHash_wrong_field_count[of "''x''" "''not:a:valid''"]
  by simp

text \<open>
  Claim C7.  For a non-empty password and a stored hash of four fields whose first field
  is not \<^verbatim>\<open>pbkdf2-sha256\<close>, \<^verbatim>\<open>CheckPasswordHash\<close> returns \<^verbatim>\<open>ErrIncompatibleAlgorithm\<close>;
  \<^verbatim>\<open>scrypt-whatever:1:AA:BB\<close> is such a hash.
\<close>

theorem CheckPasswordHash_wrong_algorithm:
  assumes "password \<noteq> []"
    and "length (strings_Split storedHash (CHR '':'')) = 4"
    and "strings_Split storedHash (CHR '':'') ! 0 \<noteq> passwordAlgorithmKey"
  shows "CheckPasswordHash password storedHash = (False, Some ErrIncompatibleAlgorithm)"
proof -
  have "storedHash \<noteq> []" using assms(2) by auto
  then show ?thesis
    using assms by (simp add: CheckPasswordHash_def)
qed

theorem CheckPasswordHash_wrong_algorithm_witness:
  "''x'' \<noteq> [] \<and>
   length (strings_Split ''scrypt-whatever:1:AA:BB'' (CHR '':'')) = 4 \<and>
   strings_Split ''scrypt-whatever:1:AA:BB'' (CHR '':'') ! 0 \<noteq> passwordAlgorithmKey \<and>
   CheckPasswordHash ''x'' ''scrypt-whatever:1:AA:BB'' = (False, Some ErrIncompatibleAlgorithm)"
  using CheckPasswordHash_wrong_algorithm[of "''x''" "''scrypt-whatever:1:AA:BB''"]
  by (simp add: passwordAlgorithmKey_def)

text \<open>
  Claim C8.  \<^verbatim>\<open>HashPassword\<close> of the empty password returns its error and leaves the random
  source as it was, so no salt is drawn; \<^verbatim>\<open>CheckPasswordHash\<close> with an empty password or
  an empty stored hash returns its error, whatever the other argument is.
\<close>

theorem empty_input_rejected:
  "HashPassword [] rng = (([], Some ErrPasswordEmpty), rng) \<and>
   CheckPasswordHash [] storedHash = (False, Some ErrPasswordOrHashEmpty) \<and>
   CheckPasswordHash password [] = (False, Some ErrPasswordOrHashEmpty)"
  by (simp add: HashPassword_def CheckPasswordHash_def)

text \<open>
  Claim C9.  For a non-empty password the encoded hash is
  \<^verbatim>\<open>pbkdf2-sha256:1000000:<salt>:<digest>\<close>: it splits at the colons into exactly these
  four fields, the salt field is the base64 text of the sixteen salt bytes and has 22
  characters, the digest field is the base64 text of the 32-byte derived key and has 43
  characters, both consist of characters of the base64 alphabet only, and no field
  contains a colon or the padding character.
\<close>

theorem HashPassword_format:
  assumes "password \<noteq> []" and "passwordSaltBytes \<le> length rng"
  defines "salt \<equiv> take passwordSaltBytes rng"
  defines "key \<equiv> pbkdf2_Key (bytes_of_string password) salt passwordIterations passwordHashBytes"
  shows "fst (HashPassword password rng)
           = (''pbkdf2-sha256:1000000:'' @ EncodeToString salt @ '':'' @ EncodeToString key, None) \<and>
         strings_Split (fst (fst (HashPassword password rng))) (CHR '':'')
           = [''pbkdf2-sha256'', ''1000000'', EncodeToString salt, EncodeToString key] \<and>
         length salt = 16 \<and> length (EncodeToString salt) = 22 \<and>
         length key = 32 \<and> length (EncodeToString key) = 43 \<and>
         set (EncodeToString salt) \<subseteq> set encodeStd \<and>
         set (EncodeToString key) \<subseteq> set encodeStd \<and>
         CHR '':'' \<notin> set ''pbkdf2-sha256'' \<and> CHR '':'' \<notin> set ''1000000'' \<and>
         CHR '':'' \<notin> set (EncodeToString salt) \<and> CHR '':'' \<notin> set (EncodeToString key) \<and>
         CHR ''='' \<notin> set (EncodeToString salt) \<and> CHR ''='' \<notin> set (EncodeToString key)"
proof -
  have salt: "salt = take 16 rng" and key: "key = pbkdf2_Key (bytes_of_string password) (take 16 rng) 1000000 32"
    unfolding salt_def key_def passwordSaltBytes_def passwordIterations_def passwordHashBytes_def
    by simp_all
  have h: "fst (HashPassword password rng)
             = (''pbkdf2-sha256:1000000:'' @ EncodeToString salt @ '':'' @ EncodeToString key, None)"
    unfolding salt key by (simp only: HashPassword_encoded[OF assms(1,2)] fst_conv)
  have sp: "strings_Split (''pbkdf2-sha256:1000000:'' @ EncodeToString salt @ '':'' @ EncodeToString key)
              (CHR '':'') = [''pbkdf2-sha256'', ''1000000'', EncodeToString salt, EncodeToString key]"
    by (rule strings_Split_encoded[OF colon_not_in_EncodeToString colon_not_in_EncodeToString])
  have ls: "length salt = 16"
    using assms(2) unfolding salt by (simp add: passwordSaltBytes_def)
  have lk: "length key = 32"
    unfolding key by (rule length_pbkdf2_Key)
  have eq_nin: "CHR ''='' \<notin> set encodeStd" by (simp add: encodeStd_def)
  have e1: "CHR ''='' \<notin> set (EncodeToString salt)" and e2: "CHR ''='' \<notin> set (EncodeToString key)"
    using set_EncodeToString eq_nin by blast+
  show ?thesis
    by (simp only: h fst_conv sp ls lk length_EncodeToString set_EncodeToString
          colon_not_in_EncodeToString e1 e2 simp_thms) simp
qed

theorem HashPassword_format_witness:
  "''correcthorse'' \<noteq> [] \<and>
   passwordSaltBytes \<le> length [1, 2, 3, 4, 5, 6, 7, 8, 9, 10, 11, 12, 13, 14, 15, 16 :: byte] \<and>
   strings_Split
     (fst (fst (HashPassword ''correcthorse''
                 [1, 2, 3, 4, 5, 6, 7, 8, 9, 10, 11, 12, 13, 14, 15, 16])))
     (CHR '':'')
   = [''pbkdf2-sha256'', ''1000000'',
      EncodeToString
        (take passwordSaltBytes [1, 2, 3, 4, 5, 6, 7, 8, 9, 10, 11, 12, 13, 14, 15, 16]),
      EncodeToString
        (pbkdf2_Key (bytes_of_string ''correcthorse'')
           (take passwordSaltBytes [1, 2, 3, 4, 5, 6, 7, 8, 9, 10, 11, 12, 13, 14, 15, 16])
           passwordIterations passwordHashBytes)] \<and>
   length (EncodeToString
        (take passwordSaltBytes [1, 2, 3, 4, 5, 6, 7, 8, 9, 10, 11, 12, 13, 14, 15, 16 :: byte]))
     = 22 \<and>
   length (EncodeToString
        (pbkdf2_Key (bytes_of_string ''correcthorse'')
           (take passwordSaltBytes [1, 2, 3, 4, 5, 6, 7, 8, 9, 10, 11, 12, 13, 14, 15, 16])
           passwordIterations passwordHashBytes)) = 43"
proof -
  have p: "''correcthorse'' \<noteq> []" by simp
  have r: "passwordSaltBytes \<le> length [1, 2, 3, 4, 5, 6, 7, 8, 9, 10, 11, 12, 13, 14, 15, 16 :: byte]"
    by (simp add: passwordSaltBytes_def)
  show ?thesis
    using p r HashPassword_format[OF p r] by blast
qed

text \<open>
  Claim C10.  When the new password of \<^verbatim>\<open>UpdateUser\<close> is absent, or present and empty, the
  querier receives the parameters with a password that is not valid (SQL NULL) and with
  every other field as it came in, and its result is returned; no hash is computed and the
  random source is left as it was.  When the new password is absent the parameters are
  passed on unchanged.
\<close>

theorem UpdateUser_without_password:
  assumes "\<not> Valid (HashedPassword arg) \<or> String (HashedPassword arg) = []"
  defines "forwarded \<equiv> arg\<lparr>HashedPassword := (HashedPassword arg)\<lparr>Valid := False\<rparr>\<rparr>"
  shows "UpdateUser db_UpdateUser zeroUser arg rng = (db_UpdateUser forwarded, rng) \<and>
         \<not> Valid (HashedPassword forwarded) \<and>
         String (HashedPassword forwarded) = String (HashedPassword arg) \<and>
         UpdateUserParams.more forwarded = UpdateUserParams.more arg \<and>
         (\<not> Valid (HashedPassword arg) \<longrightarrow> forwarded = arg)"
proof -
  have same: "\<not> Valid (HashedPassword arg) \<Longrightarrow> forwarded = arg"
    unfolding forwarded_def by simp
  show ?thesis
  proof (cases "Valid (HashedPassword arg)")
    case True
    then show ?thesis using assms(1) by (simp add: UpdateUser_def forwarded_def)
  next
    case False
    then show ?thesis using same by (simp add: UpdateUser_def)
  qed
qed

theorem UpdateUser_without_password_witness:
  "String (HashedPassword
      \<lparr>HashedPassword = \<lparr>String = [], Valid = True\<rparr>, \<dots> = (''Ada'', ''Lovelace'', 7 :: int)\<rparr>) = [] \<and>
   UpdateUser (\<lambda>a. (a, None))
     \<lparr>HashedPassword = \<lparr>String = [], Valid = False\<rparr>, \<dots> = ([], [], 0 :: int)\<rparr>
     \<lparr>HashedPassword = \<lparr>String = [], Valid = True\<rparr>, \<dots> = (''Ada'', ''Lovelace'', 7 :: int)\<rparr>
     [1, 2, 3]
   = ((\<lparr>HashedPassword = \<lparr>String = [], Valid = False\<rparr>, \<dots> = (''Ada'', ''Lovelace'', 7 :: int)\<rparr>, None),
      [1, 2, 3])"
  using UpdateUser_without_password
          [of "\<lparr>HashedPassword = \<lparr>String = [], Valid = True\<rparr>, \<dots> = (''Ada'', ''Lovelace'', 7 :: int)\<rparr>"
              "\<lambda>a. (a, None)"
              "\<lparr>HashedPassword = \<lparr>String = [], Valid = False\<rparr>, \<dots> = ([], [], 0 :: int)\<rparr>"
              "[1, 2, 3]"]
  by simp

end
